theory Spec2Isabelle
  imports Complex_Main
begin

section \<open>Values and exceptions\<close>

text \<open>
  The exceptions the modelled code can raise. \<open>NoneLogError\<close> is what
  \<^verbatim>\<open>numpy.log(None)\<close> raises (an AttributeError or a TypeError, depending on the numpy
  version). \<open>ConfigurationError\<close> and \<open>FittingFailure\<close> are the error kinds the
  specification names; no statement of \<^verbatim>\<open>ShiftedBeta.py\<close> raises them, and they are
  here so that what the code raises can be told apart from them.
\<close>

datatype error =
    IndexError
  | KeyError
  | TypeError
  | ValueError
  | ZeroDivisionError
  | NoneLogError
  | ConfigurationError
  | FittingFailure

text \<open>
  The values of a float64: the finite ones, which are real numbers (\<open>is_f64\<close> below
  tells which reals), and the three special values. The operations defined on them here
  are exact on finite values, and on the special values they follow IEEE 754 as numpy
  implements it: no operation raises, \<open>0 / 0\<close>, \<open>0 * inf\<close> and \<open>inf - inf\<close> are \<open>nan\<close>,
  \<open>log 0\<close> is \<open>-inf\<close>. The float64 operations proper, which round, are defined from them
  in the section on float64 arithmetic. The sign of a zero is not recorded: a zero
  divisor counts as \<open>+0.0\<close>, which is what the sums in this program produce.
\<close>

datatype npfloat = Fin real | PInf | NInf | NaN

instantiation npfloat :: "{zero, one, plus, uminus, times}"
begin

definition zero_npfloat :: npfloat where
  "zero_npfloat = Fin 0"

definition one_npfloat :: npfloat where
  "one_npfloat = Fin 1"

fun plus_npfloat :: "npfloat \<Rightarrow> npfloat \<Rightarrow> npfloat" where
  "plus_npfloat (Fin x) (Fin y) = Fin (x + y)"
| "plus_npfloat NaN b = NaN"
| "plus_npfloat a NaN = NaN"
| "plus_npfloat PInf NInf = NaN"
| "plus_npfloat NInf PInf = NaN"
| "plus_npfloat PInf b = PInf"
| "plus_npfloat a PInf = PInf"
| "plus_npfloat NInf b = NInf"
| "plus_npfloat a NInf = NInf"

fun uminus_npfloat :: "npfloat \<Rightarrow> npfloat" where
  "uminus_npfloat (Fin x) = Fin (- x)"
| "uminus_npfloat PInf = NInf"
| "uminus_npfloat NInf = PInf"
| "uminus_npfloat NaN = NaN"

fun times_npfloat :: "npfloat \<Rightarrow> npfloat \<Rightarrow> npfloat" where
  "times_npfloat (Fin x) (Fin y) = Fin (x * y)"
| "times_npfloat NaN b = NaN"
| "times_npfloat a NaN = NaN"
| "times_npfloat (Fin x) PInf = (if x = 0 then NaN else if 0 < x then PInf else NInf)"
| "times_npfloat (Fin x) NInf = (if x = 0 then NaN else if 0 < x then NInf else PInf)"
| "times_npfloat PInf (Fin y) = (if y = 0 then NaN else if 0 < y then PInf else NInf)"
| "times_npfloat NInf (Fin y) = (if y = 0 then NaN else if 0 < y then NInf else PInf)"
| "times_npfloat PInf PInf = PInf"
| "times_npfloat PInf NInf = NInf"
| "times_npfloat NInf PInf = NInf"
| "times_npfloat NInf NInf = PInf"

instance ..

end

instantiation npfloat :: "{minus, divide}"
begin

definition minus_npfloat :: "npfloat \<Rightarrow> npfloat \<Rightarrow> npfloat" where
  "minus_npfloat a b = a + (- b)"

fun divide_npfloat :: "npfloat \<Rightarrow> npfloat \<Rightarrow> npfloat" where
  "divide_npfloat (Fin x) (Fin y) =
     (if y \<noteq> 0 then Fin (x / y)
      else if x = 0 then NaN else if 0 < x then PInf else NInf)"
| "divide_npfloat NaN b = NaN"
| "divide_npfloat a NaN = NaN"
| "divide_npfloat (Fin x) PInf = Fin 0"
| "divide_npfloat (Fin x) NInf = Fin 0"
| "divide_npfloat PInf (Fin y) = (if 0 \<le> y then PInf else NInf)"
| "divide_npfloat NInf (Fin y) = (if 0 \<le> y then NInf else PInf)"
| "divide_npfloat PInf b = NaN"
| "divide_npfloat NInf b = NaN"

instance ..

end

instantiation npfloat :: inverse
begin

definition inverse_npfloat :: "npfloat \<Rightarrow> npfloat" where
  "inverse_npfloat a = Fin 1 div a"

instance ..

end

text \<open>
  With exact finite arithmetic the addition of these values is associative and
  commutative, with \<open>0\<close> as its unit (\<open>nan\<close> absorbs every sum it enters): sums of lists
  of floats are the library's \<open>sum_list\<close>.
\<close>

lemma npfloat_add_assoc: "(a + b) + c = a + (b + (c::npfloat))"
  by (cases a; cases b; cases c) simp_all

lemma npfloat_add_commute: "a + b = b + (a::npfloat)"
  by (cases a; cases b) simp_all

lemma npfloat_add_0: "0 + a = (a::npfloat)"
  by (cases a) (simp_all add: zero_npfloat_def)

instance npfloat :: comm_monoid_add
  by standard (rule npfloat_add_assoc, rule npfloat_add_commute, rule npfloat_add_0)

text \<open>\<^verbatim>\<open>numpy.log\<close> of one float64: \<open>-inf\<close> at zero, \<open>nan\<close> below it.\<close>

fun np_log :: "npfloat \<Rightarrow> npfloat" where
  "np_log (Fin x) = (if 0 < x then Fin (ln x) else if x = 0 then NInf else NaN)"
| "np_log PInf = PInf"
| "np_log NInf = NaN"
| "np_log NaN = NaN"

text \<open>
  \<^verbatim>\<open>numpy.exp\<close> of one float64. Below \<open>-746\<close> the result is exactly \<open>0.0\<close> (the smallest
  positive float64 is \<open>2^-1074\<close>, about \<open>exp (-744.44)\<close>) and above \<open>710\<close> it is \<open>inf\<close>
  (the largest float64 is below \<open>exp 709.79\<close>). Between the two bounds the result is
  idealised as the exact exponential: its rounding, and the underflow and overflow that
  set in shortly inside the two bounds, are not modelled.
\<close>

fun np_exp :: "npfloat \<Rightarrow> npfloat" where
  "np_exp (Fin x) = (if x < - 746 then Fin 0 else if 710 < x then PInf else Fin (exp x))"
| "np_exp PInf = PInf"
| "np_exp NInf = Fin 0"
| "np_exp NaN = NaN"

text \<open>A Python int (a count, a loop index) used in float arithmetic.\<close>

definition np_of_int :: "int \<Rightarrow> npfloat" where
  "np_of_int i = Fin (of_int i)"

text \<open>
  \<^verbatim>\<open>xs[i]\<close> on a Python list or a numpy array. From \<open>-len(xs)\<close> up to \<open>-1\<close> the index
  is taken from the end; outside \<open>-len(xs) .. len(xs) - 1\<close> the access raises IndexError.
\<close>

definition py_index :: "'a list \<Rightarrow> int \<Rightarrow> error + 'a" where
  "py_index xs i =
     (if 0 \<le> i \<and> i < int (length xs) then Inr (xs ! nat i)
      else if i < 0 \<and> - int (length xs) \<le> i then Inr (xs ! nat (int (length xs) + i))
      else Inl IndexError)"

text \<open>
  The slice \<^verbatim>\<open>xs[1:stop]\<close> for a \<open>stop\<close> that is a length (never negative): out-of-range
  bounds are clipped, nothing raises.
\<close>

definition slice1 :: "'a list \<Rightarrow> int \<Rightarrow> 'a list" where
  "slice1 xs stop = drop 1 (take (nat stop) xs)"

text \<open>
  An entry of the lists \<open>p\<close> and \<open>s\<close> is \<open>None\<close> (index 0) or a float; using \<open>None\<close> in
  arithmetic raises TypeError.
\<close>

definition as_float :: "'f option \<Rightarrow> error + 'f" where
  "as_float v = (case v of None \<Rightarrow> Inl TypeError | Some f \<Rightarrow> Inr f)"

section \<open>The retention recursion\<close>

text \<open>
  \<^verbatim>\<open>_recursive_retention_stats\<close> is a static method: it computes with the floats it is
  given. \<^verbatim>\<open>_logp\<close> passes numpy.float64 values, whose division never raises; a direct call
  with Python floats raises ZeroDivisionError at a zero divisor; and every operation of
  either kind rounds. The arithmetic is therefore a parameter of the model: the four
  operations the code uses, of which division can raise, and the conversion of a Python
  int (the loop index \<open>t\<close>, the literals 1 and 2) to a float.
\<close>

record 'f arith =
  f_add :: "'f \<Rightarrow> 'f \<Rightarrow> 'f"
  f_sub :: "'f \<Rightarrow> 'f \<Rightarrow> 'f"
  f_mul :: "'f \<Rightarrow> 'f \<Rightarrow> 'f"
  f_div :: "'f \<Rightarrow> 'f \<Rightarrow> error + 'f"
  f_of_int :: "int \<Rightarrow> 'f"

text \<open>The quotient \<^verbatim>\<open>alpha / (alpha + beta)\<close> of line 119.\<close>

definition base_ratio :: "'f arith \<Rightarrow> 'f \<Rightarrow> 'f \<Rightarrow> error + 'f" where
  "base_ratio ar alpha beta = f_div ar alpha (f_add ar alpha beta)"

text \<open>The quotient \<^verbatim>\<open>(beta + t - 2) / (alpha + beta + t - 1)\<close> of line 124.\<close>

definition step_ratio :: "'f arith \<Rightarrow> 'f \<Rightarrow> 'f \<Rightarrow> int \<Rightarrow> error + 'f" where
  "step_ratio ar alpha beta t =
     f_div ar (f_sub ar (f_add ar beta (f_of_int ar t)) (f_of_int ar 2))
              (f_sub ar (f_add ar (f_add ar alpha beta) (f_of_int ar t)) (f_of_int ar 1))"

text \<open>
  Lines 118 to 131. The loop \<^verbatim>\<open>for t in range(2, num_periods)\<close> is \<open>rrs_loop\<close>, entered at
  \<open>t = 2\<close> with the two lists holding \<open>None\<close> and the base case.
\<close>

function rrs_loop ::
  "'f arith \<Rightarrow> 'f \<Rightarrow> 'f \<Rightarrow> int \<Rightarrow> int \<Rightarrow> 'f option list \<Rightarrow> 'f option list
     \<Rightarrow> error + ('f option list \<times> 'f option list)" where
  "rrs_loop ar alpha beta num_periods t p s =
     (if t < num_periods then
        (case step_ratio ar alpha beta t of Inl e \<Rightarrow> Inl e | Inr ratio \<Rightarrow>
        (case py_index p (t - 1) of Inl e \<Rightarrow> Inl e | Inr v \<Rightarrow>
        (case as_float v of Inl e \<Rightarrow> Inl e | Inr p_prev \<Rightarrow>
        (let pt = f_mul ar ratio p_prev;
             p' = p @ [Some pt]
         in
        (case py_index s (t - 1) of Inl e \<Rightarrow> Inl e | Inr v \<Rightarrow>
        (case as_float v of Inl e \<Rightarrow> Inl e | Inr s_prev \<Rightarrow>
        (case py_index p' t of Inl e \<Rightarrow> Inl e | Inr v \<Rightarrow>
        (case as_float v of Inl e \<Rightarrow> Inl e | Inr p_t \<Rightarrow>
           rrs_loop ar alpha beta num_periods (t + 1) p' (s @ [Some (f_sub ar s_prev p_t)])))))))))
      else Inr (p, s))"
  by pat_completeness auto
termination
  by (relation "measure (\<lambda>(ar, alpha, beta, num_periods, t, p, s). nat (num_periods - t))") auto

definition recursive_retention_stats ::
  "'f arith \<Rightarrow> 'f \<Rightarrow> 'f \<Rightarrow> int \<Rightarrow> error + ('f option list \<times> 'f option list)" where
  "recursive_retention_stats ar alpha beta num_periods =
     (case base_ratio ar alpha beta of Inl e \<Rightarrow> Inl e | Inr p1 \<Rightarrow>
     (let p = [None, Some p1];
          s = [None, Some (f_sub ar (f_of_int ar 1) p1)]
      in rrs_loop ar alpha beta num_periods 2 p s))"

text \<open>
  The call returns exactly when none of its divisions raises: the one of the base case
  and the one of each round \<open>t = 2 .. num_periods - 1\<close> of the loop.
\<close>

definition no_division_raises :: "'f arith \<Rightarrow> 'f \<Rightarrow> 'f \<Rightarrow> int \<Rightarrow> bool" where
  "no_division_raises ar alpha beta num_periods =
     (\<not> isl (base_ratio ar alpha beta) \<and>
      list_all (\<lambda>t. \<not> isl (step_ratio ar alpha beta t)) [2..num_periods - 1])"

text \<open>
  The idealised arithmetic in which the likelihood is modelled: the operations of
  \<open>npfloat\<close>, exact on finite values, with numpy's division, which never raises.
\<close>

definition exact_arith :: "npfloat arith" where
  "exact_arith =
     \<lparr>f_add = (+), f_sub = (-), f_mul = (*), f_div = (\<lambda>a b. Inr (a / b)),
      f_of_int = np_of_int\<rparr>"

section \<open>Float64 arithmetic\<close>

text \<open>
  The arithmetic the recursion runs on: IEEE 754 binary64 with rounding to nearest, ties
  to even. A finite float64 is a real \<open>k * 2^e\<close> with \<open>\<bar>k\<bar> < 2^53\<close> and
  \<open>-1074 \<le> e \<le> 971\<close>. Around a positive real \<open>x\<close> these numbers are spaced
  \<open>2^(\<lfloor>log 2 x\<rfloor> - 52)\<close> apart, and never less than \<open>2^-1074\<close> (the subnormal range):
  \<open>f64_nearest\<close> scales \<open>x\<close> by that spacing, rounds to an integer and scales back.
\<close>

definition round_half_even :: "real \<Rightarrow> int" where
  "round_half_even m =
     (let f = \<lfloor>m\<rfloor>; d = m - of_int f
      in if d < 1 / 2 then f else if 1 / 2 < d then f + 1 else if even f then f else f + 1)"

definition pow2 :: "int \<Rightarrow> real" where
  "pow2 e = 2 powr of_int e"

definition f64_ulp_exponent :: "real \<Rightarrow> int" where
  "f64_ulp_exponent x = max (\<lfloor>log 2 x\<rfloor> - 52) (- 1074)"

definition f64_nearest :: "real \<Rightarrow> real" where
  "f64_nearest x =
     of_int (round_half_even (x / pow2 (f64_ulp_exponent x))) * pow2 (f64_ulp_exponent x)"

text \<open>
  The float64 range ends below \<open>2^1024\<close>: a real whose nearest candidate is \<open>2^1024\<close> or
  more rounds to \<open>inf\<close>. The largest finite float64 is \<open>(2^53 - 1) * 2^971\<close>. Negative
  reals round as their absolute value does, and the reals that are float64 values are
  those that rounding leaves as they are.
\<close>

definition f64_limit :: real where
  "f64_limit = 2 ^ 1024"

definition f64_max :: real where
  "f64_max = (2 ^ 53 - 1) * 2 ^ 971"

definition f64_round_pos :: "real \<Rightarrow> npfloat" where
  "f64_round_pos x = (if f64_limit \<le> f64_nearest x then PInf else Fin (f64_nearest x))"

definition f64_round :: "real \<Rightarrow> npfloat" where
  "f64_round x =
     (if x = 0 then Fin 0 else if 0 < x then f64_round_pos x else - f64_round_pos (- x))"

definition is_f64 :: "real \<Rightarrow> bool" where
  "is_f64 x = (f64_round x = Fin x)"

text \<open>The order of two floats, as \<^verbatim>\<open><=\<close> evaluates it: false whenever \<open>nan\<close> is involved.\<close>

fun np_le :: "npfloat \<Rightarrow> npfloat \<Rightarrow> bool" where
  "np_le (Fin x) (Fin y) = (x \<le> y)"
| "np_le NaN b = False"
| "np_le a NaN = False"
| "np_le NInf b = True"
| "np_le a PInf = True"
| "np_le a b = False"

text \<open>
  One float64 operation is the exact operation of \<open>npfloat\<close>, which settles the special
  values, followed by the rounding of a finite result. A Python int used in float
  arithmetic is converted by rounding as well (exactly, below \<open>2^53\<close>).
\<close>

definition f64_result :: "npfloat \<Rightarrow> npfloat" where
  "f64_result v = (case v of Fin x \<Rightarrow> f64_round x | PInf \<Rightarrow> PInf | NInf \<Rightarrow> NInf | NaN \<Rightarrow> NaN)"

definition f64_add :: "npfloat \<Rightarrow> npfloat \<Rightarrow> npfloat" where
  "f64_add a b = f64_result (a + b)"

definition f64_sub :: "npfloat \<Rightarrow> npfloat \<Rightarrow> npfloat" where
  "f64_sub a b = f64_result (a - b)"

definition f64_mul :: "npfloat \<Rightarrow> npfloat \<Rightarrow> npfloat" where
  "f64_mul a b = f64_result (a * b)"

definition f64_divide :: "npfloat \<Rightarrow> npfloat \<Rightarrow> npfloat" where
  "f64_divide a b = f64_result (a / b)"

definition f64_of_int :: "int \<Rightarrow> npfloat" where
  "f64_of_int i = f64_round (of_int i)"

text \<open>
  The two kinds of float the recursion is called with. \<^verbatim>\<open>_logp\<close> passes numpy.float64
  values, whose division never raises: at a zero divisor it returns \<open>inf\<close> or \<open>nan\<close>. A
  direct call with Python floats raises ZeroDivisionError at a zero divisor. In every
  other respect the two agree.
\<close>

definition numpy_f64 :: "npfloat arith" where
  "numpy_f64 =
     \<lparr>f_add = f64_add, f_sub = f64_sub, f_mul = f64_mul,
      f_div = (\<lambda>a b. Inr (f64_divide a b)), f_of_int = f64_of_int\<rparr>"

definition python_f64 :: "npfloat arith" where
  "python_f64 =
     \<lparr>f_add = f64_add, f_sub = f64_sub, f_mul = f64_mul,
      f_div = (\<lambda>a b. if b = Fin 0 then Inl ZeroDivisionError else Inr (f64_divide a b)),
      f_of_int = f64_of_int\<rparr>"

section \<open>The model object and its indicator map\<close>

text \<open>
  One cohort is a pair \<^verbatim>\<open>(active, lost)\<close> of count arrays; the data of a category is a
  list of cohorts. The dict \<^verbatim>\<open>data\<close> is an association list in iteration order (its
  keys are distinct).
\<close>

type_synonym cohort = "int list \<times> int list"

record 'k model =
  self_data :: "('k \<times> cohort list) list"
  self_categories :: "'k list"
  self_n_cats :: nat
  self_imap :: "'k \<rightharpoonup> bool list"
  self_alpha :: "'k \<rightharpoonup> npfloat"
  self_beta :: "'k \<rightharpoonup> npfloat"
  self_opt :: "npfloat list option"

text \<open>
  \<^verbatim>\<open>indicator_map\<close>, lines 71 to 86: the loop over \<^verbatim>\<open>enumerate(self.categories)\<close>, with
  \<open>i\<close> the running index. Writing \<^verbatim>\<open>bool_ind[0]\<close> or \<^verbatim>\<open>bool_ind[i]\<close> beyond the length
  \<^verbatim>\<open>self.n_cats\<close> of the array raises IndexError.
\<close>

fun indicator_map_loop ::
  "nat \<Rightarrow> nat \<Rightarrow> 'k list \<Rightarrow> ('k \<rightharpoonup> bool list) \<Rightarrow> error + ('k \<rightharpoonup> bool list)" where
  "indicator_map_loop n_cats i [] imap = Inr imap"
| "indicator_map_loop n_cats i (category # rest) imap =
     (let bool_ind = replicate n_cats False in
      if n_cats \<le> 0 then Inl IndexError
      else let bool_ind = bool_ind[0 := True] in
      if n_cats \<le> i then Inl IndexError
      else let bool_ind = bool_ind[i := True] in
      indicator_map_loop n_cats (Suc i) rest (imap(category \<mapsto> bool_ind)))"

definition indicator_map :: "'k model \<Rightarrow> error + 'k model" where
  "indicator_map m =
     (case indicator_map_loop (self_n_cats m) 0 (self_categories m) (self_imap m) of
        Inl e \<Rightarrow> Inl e
      | Inr imap \<Rightarrow> Inr (m\<lparr>self_imap := imap\<rparr>))"

text \<open>\<^verbatim>\<open>__init__\<close>, lines 37 to 51.\<close>

definition init :: "('k::linorder \<times> cohort list) list \<Rightarrow> error + 'k model" where
  "init data =
     indicator_map
       \<lparr>self_data = data,
        self_categories = sort (map fst data),
        self_n_cats = length data,
        self_imap = Map.empty,
        self_alpha = Map.empty,
        self_beta = Map.empty,
        self_opt = None\<rparr>"

section \<open>The likelihood\<close>

text \<open>
  \<^verbatim>\<open>arr[bool_ind].sum()\<close>: the entries of \<open>arr\<close> at the true positions of the mask, added
  up. A mask whose length is not that of the array raises IndexError (older numpy
  versions only warned).
\<close>

definition mask_sum :: "npfloat list \<Rightarrow> bool list \<Rightarrow> error + npfloat" where
  "mask_sum arr bool_ind =
     (if length bool_ind \<noteq> length arr then Inl IndexError
      else Inr (foldl (+) 0 (map fst (filter snd (zip arr bool_ind)))))"

text \<open>\<^verbatim>\<open>numpy.log\<close> of a list of entries of \<open>p\<close>; a \<open>None\<close> among them raises.\<close>

fun np_log_list :: "npfloat option list \<Rightarrow> error + npfloat list" where
  "np_log_list [] = Inr []"
| "np_log_list (None # vs) = Inl NoneLogError"
| "np_log_list (Some f # vs) =
     (case np_log_list vs of Inl e \<Rightarrow> Inl e | Inr ls \<Rightarrow> Inr (np_log f # ls))"

text \<open>\<^verbatim>\<open>numpy.log\<close> of one entry of \<open>s\<close>.\<close>

definition np_log_entry :: "npfloat option \<Rightarrow> error + npfloat" where
  "np_log_entry v = (case v of None \<Rightarrow> Inl NoneLogError | Some f \<Rightarrow> Inr (np_log f))"

text \<open>
  The product of two one-dimensional arrays: elementwise when the lengths agree, an array
  of length one is broadcast against the other, any other pair of lengths raises
  ValueError.
\<close>

definition np_mul_arr :: "npfloat list \<Rightarrow> npfloat list \<Rightarrow> error + npfloat list" where
  "np_mul_arr xs ys =
     (if length xs = length ys then Inr (map2 (*) xs ys)
      else if length xs = 1 then Inr (map (\<lambda>y. hd xs * y) ys)
      else if length ys = 1 then Inr (map (\<lambda>x. x * hd ys) xs)
      else Inl ValueError)"

text \<open>
  Lines 193 to 200: the contribution of one cohort to the log-likelihood, computed from
  the two lists \<open>pt\<close> and \<open>sf\<close> the recursion returned. The value is
  \<^verbatim>\<open>sum(died) + still_active\<close>, where Python's \<^verbatim>\<open>sum\<close> adds from the left, starting at 0.
  No count is tested before a logarithm is taken or a product is formed.
\<close>

definition cohort_terms ::
  "npfloat option list \<Rightarrow> npfloat option list \<Rightarrow> cohort \<Rightarrow> error + npfloat" where
  "cohort_terms pt sf val =
     (case val of (active, lost) \<Rightarrow>
     (let len = int (length active) in
     (case np_log_list (slice1 pt len) of Inl e \<Rightarrow> Inl e | Inr logs \<Rightarrow>
     (case np_mul_arr logs (map np_of_int (slice1 lost len)) of Inl e \<Rightarrow> Inl e
      | Inr died \<Rightarrow>
     (case py_index sf (len - 1) of Inl e \<Rightarrow> Inl e | Inr sv \<Rightarrow>
     (case np_log_entry sv of Inl e \<Rightarrow> Inl e | Inr log_s \<Rightarrow>
     (case py_index active (len - 1) of Inl e \<Rightarrow> Inl e | Inr a \<Rightarrow>
        Inr (foldl (+) 0 died + log_s * np_of_int a))))))))"

text \<open>
  The body of the loop over the cohorts of one category, lines 174 to 200: the recursion
  is called with the length of the cohort, and its two lists give the contribution.
\<close>

definition cohort_loglike :: "npfloat \<Rightarrow> npfloat \<Rightarrow> cohort \<Rightarrow> error + npfloat" where
  "cohort_loglike alpha_comb beta_comb val =
     (case val of (active, lost) \<Rightarrow>
     (let len = int (length active) in
     (case recursive_retention_stats exact_arith alpha_comb beta_comb len of Inl e \<Rightarrow> Inl e
      | Inr (pt, sf) \<Rightarrow> cohort_terms pt sf val)))"

fun cohorts_loop :: "npfloat \<Rightarrow> npfloat \<Rightarrow> cohort list \<Rightarrow> npfloat \<Rightarrow> error + npfloat" where
  "cohorts_loop alpha_comb beta_comb [] log_like = Inr log_like"
| "cohorts_loop alpha_comb beta_comb (val # rest) log_like =
     (case cohort_loglike alpha_comb beta_comb val of Inl e \<Rightarrow> Inl e
      | Inr c \<Rightarrow> cohorts_loop alpha_comb beta_comb rest (log_like + c))"

text \<open>The loop over \<^verbatim>\<open>self.data.iteritems()\<close>, lines 159 to 200.\<close>

fun logp_loop ::
  "'k model \<Rightarrow> npfloat list \<Rightarrow> npfloat list \<Rightarrow> ('k \<times> cohort list) list \<Rightarrow> npfloat
     \<Rightarrow> error + npfloat" where
  "logp_loop m alpha beta [] log_like = Inr log_like"
| "logp_loop m alpha beta ((name, cohorts) # rest) log_like =
     (case self_imap m name of None \<Rightarrow> Inl KeyError | Some bool_ind \<Rightarrow>
     (case mask_sum alpha bool_ind of Inl e \<Rightarrow> Inl e | Inr sum_a \<Rightarrow>
     (case mask_sum beta bool_ind of Inl e \<Rightarrow> Inl e | Inr sum_b \<Rightarrow>
     (case cohorts_loop (np_exp sum_a) (np_exp sum_b) cohorts log_like of Inl e \<Rightarrow> Inl e
      | Inr log_like' \<Rightarrow> logp_loop m alpha beta rest log_like'))))"

text \<open>\<^verbatim>\<open>_logp\<close>, lines 157 to 203.\<close>

definition logp :: "'k model \<Rightarrow> npfloat list \<Rightarrow> npfloat list \<Rightarrow> error + npfloat" where
  "logp m alpha beta =
     (case logp_loop m alpha beta (self_data m) 0 of Inl e \<Rightarrow> Inl e
      | Inr log_like \<Rightarrow> Inr (- log_like))"

section \<open>Fitting\<close>

text \<open>
  What \<^verbatim>\<open>scipy.optimize.minimize\<close> returns: the objective value \<^verbatim>\<open>fun\<close>, the solution
  \<^verbatim>\<open>x\<close> and the flag \<^verbatim>\<open>success\<close>. The minimizer itself is outside the repository and is a
  parameter of \<open>fit\<close>: a function of the objective and the starting point that returns
  such a result or raises.
\<close>

record optimize_result =
  opt_fun :: npfloat
  opt_x :: "npfloat list"
  opt_success :: bool

type_synonym minimizer =
  "(npfloat list \<Rightarrow> error + npfloat) \<Rightarrow> npfloat list \<Rightarrow> error + optimize_result"

text \<open>
  Line 240 compares the result object itself with the stored objective value:
  \<^verbatim>\<open>new_opt > optimal\<close>. The module is Python 2 (\<^verbatim>\<open>iteritems\<close>), where an object that is
  not a number (the result is a dict subclass) is ordered after every number: the test is
  true whatever the two values are.
\<close>

definition result_gt :: "optimize_result \<Rightarrow> npfloat \<Rightarrow> bool" where
  "result_gt new_opt optimal = True"

text \<open>
  \<^verbatim>\<open>numpy.random.random((rows, cols))\<close>: the draws of the generator, \<open>rng k\<close> being the
  \<open>k\<close>-th, laid out row by row.
\<close>

definition random_matrix :: "(nat \<Rightarrow> real) \<Rightarrow> nat \<Rightarrow> nat \<Rightarrow> npfloat list list" where
  "random_matrix rng rows cols =
     map (\<lambda>i. map (\<lambda>j. Fin (rng (i * cols + j))) [0..<cols]) [0..<rows]"

text \<open>The objective handed to the minimizer, lines 228 and 229.\<close>

definition objective :: "'k model \<Rightarrow> npfloat list \<Rightarrow> error + npfloat" where
  "objective m p = logp m (take (self_n_cats m) p) (drop (self_n_cats m) p)"

text \<open>
  The loop over the initial guesses, lines 224 to 242. The result is the exception
  raised, if any, the local \<open>optimal\<close> and the object as the loop leaves it.
\<close>

fun fit_loop ::
  "minimizer \<Rightarrow> npfloat list list \<Rightarrow> npfloat option \<Rightarrow> 'k model
     \<Rightarrow> error option \<times> npfloat option \<times> 'k model" where
  "fit_loop minimize [] optimal m = (None, optimal, m)"
| "fit_loop minimize (guess # rest) optimal m =
     (case minimize (objective m) guess of
        Inl e \<Rightarrow> (Some e, optimal, m)
      | Inr new_opt \<Rightarrow>
          (let (optimal1, m1) =
                 (case optimal of
                    None \<Rightarrow> (opt_fun new_opt, m\<lparr>self_opt := Some (opt_x new_opt)\<rparr>)
                  | Some v \<Rightarrow> (v, m));
               (optimal2, m2) =
                 (if result_gt new_opt optimal1
                  then (opt_fun new_opt, m1\<lparr>self_opt := Some (opt_x new_opt)\<rparr>)
                  else (optimal1, m1))
           in fit_loop minimize rest (Some optimal2) m2))"

text \<open>
  The loop over \<^verbatim>\<open>self.categories\<close>, lines 245 to 251. Slicing \<^verbatim>\<open>self.opt\<close> while it is
  still \<open>None\<close> raises TypeError.
\<close>

fun publish_loop :: "'k list \<Rightarrow> 'k model \<Rightarrow> error option \<times> 'k model" where
  "publish_loop [] m = (None, m)"
| "publish_loop (name # rest) m =
     (case self_imap m name of None \<Rightarrow> (Some KeyError, m) | Some bool_ind \<Rightarrow>
     (case self_opt m of None \<Rightarrow> (Some TypeError, m) | Some opt \<Rightarrow>
     (case mask_sum (take (self_n_cats m) opt) bool_ind of Inl e \<Rightarrow> (Some e, m)
      | Inr sum_a \<Rightarrow>
     (let m1 = m\<lparr>self_alpha := (self_alpha m)(name \<mapsto> np_exp sum_a)\<rparr> in
     (case mask_sum (drop (self_n_cats m) opt) bool_ind of Inl e \<Rightarrow> (Some e, m1)
      | Inr sum_b \<Rightarrow>
          publish_loop rest (m1\<lparr>self_beta := (self_beta m1)(name \<mapsto> np_exp sum_b)\<rparr>))))))"

text \<open>
  \<^verbatim>\<open>fit\<close>, lines 205 to 251. A negative number of rows makes \<^verbatim>\<open>numpy.random.random\<close>
  raise ValueError. The result is the exception raised, if any, and the object as the
  call leaves it.
\<close>

definition fit ::
  "(nat \<Rightarrow> real) \<Rightarrow> minimizer \<Rightarrow> int \<Rightarrow> 'k model \<Rightarrow> error option \<times> 'k model" where
  "fit rng minimize restarts m =
     (if restarts < 0 then (Some ValueError, m)
      else
        (let initial_guesses =
               map (map (\<lambda>r. Fin 4 * r - Fin 3))
                 (random_matrix rng (nat restarts) (2 * self_n_cats m))
         in
         (case fit_loop minimize initial_guesses None m of
            (Some e, optimal, m') \<Rightarrow> (Some e, m')
          | (None, optimal, m') \<Rightarrow> publish_loop (self_categories m') m')))"

section \<open>The recursion as the specification writes it\<close>

text \<open>
  The two sequences of the specification over the reals, by their recurrences: the base
  case \<open>P 1 = a / (a + b)\<close>, \<open>S 1 = 1 - P 1\<close>, and for \<open>t \<ge> 2\<close>
  \<open>P t = (b + t - 2) / (a + b + t - 1) * P (t - 1)\<close>, \<open>S t = S (t - 1) - P t\<close>. They
  are compared with what the code returns; index 0 of \<open>spec_P\<close> is never read.
\<close>

fun spec_P :: "real \<Rightarrow> real \<Rightarrow> nat \<Rightarrow> real" where
  "spec_P a b 0 = 0"
| "spec_P a b (Suc 0) = a / (a + b)"
| "spec_P a b (Suc (Suc k)) = (b + real k) / (a + b + real k + 1) * spec_P a b (Suc k)"

fun spec_S :: "real \<Rightarrow> real \<Rightarrow> nat \<Rightarrow> real" where
  "spec_S a b 0 = 1"
| "spec_S a b (Suc k) = spec_S a b k - spec_P a b (Suc k)"

section \<open>The likelihood as the specification writes it\<close>


definition spec_cohort_loglike :: "npfloat \<Rightarrow> npfloat \<Rightarrow> cohort \<Rightarrow> npfloat" where
  "spec_cohort_loglike alpha beta val =
     (case val of (active, lost) \<Rightarrow>
     (case recursive_retention_stats exact_arith alpha beta (int (length active)) of
        Inl e \<Rightarrow> NaN
      | Inr (P, S) \<Rightarrow>
          sum_list (map (\<lambda>t. np_of_int (lost ! t) * np_log (the (P ! t))) [1..<length active])
          + np_of_int (active ! (length active - 1)) * np_log (the (S ! (length active - 1)))))"








section \<open>Example inputs\<close>

text \<open>
  A dataset with one category and two cohorts, the second with a single period, and the
  object the constructor builds from it.
\<close>

definition short_cohort_data :: "(nat \<times> cohort list) list" where
  "short_cohort_data = [(0, [([10, 8], [0, 2]), ([5], [0])])]"

definition short_cohort_model :: "nat model" where
  "short_cohort_model =
     \<lparr>self_data = short_cohort_data, self_categories = [0], self_n_cats = 1,
      self_imap = [0 \<mapsto> [True]], self_alpha = Map.empty, self_beta = Map.empty,
      self_opt = None\<rparr>"

text \<open>
  A dataset with one category and one cohort of two periods in which nobody is lost, and
  the object the constructor builds from it.
\<close>

definition zero_lost_data :: "(nat \<times> cohort list) list" where
  "zero_lost_data = [(0, [([10, 10], [0, 0])])]"

definition zero_lost_model :: "nat model" where
  "zero_lost_model =
     \<lparr>self_data = zero_lost_data, self_categories = [0], self_n_cats = 1,
      self_imap = [0 \<mapsto> [True]], self_alpha = Map.empty, self_beta = Map.empty,
      self_opt = None\<rparr>"

text \<open>
  Draws of the random generator that make the two initial guesses \<open>[-3, 0]\<close> and
  \<open>[0, -3]\<close> for a model with one category.
\<close>

definition example_rng :: "nat \<Rightarrow> real" where
  "example_rng k = (if k = 0 \<or> k = 3 then 0 else 3 / 4)"

text \<open>
  Two minimizers. The first stops at once: it returns its starting point and the value
  of the objective there, and raises what the objective raises. The second fails on every
  call: it reports no success and a \<open>nan\<close> objective.
\<close>

definition start_point_minimize :: minimizer where
  "start_point_minimize f guess =
     (case f guess of Inl e \<Rightarrow> Inl e
      | Inr v \<Rightarrow> Inr \<lparr>opt_fun = v, opt_x = guess, opt_success = True\<rparr>)"

definition failing_minimize :: minimizer where
  "failing_minimize f guess = Inr \<lparr>opt_fun = NaN, opt_x = guess, opt_success = False\<rparr>"





text \<open>A float64 so large that adding 1 or 2 to it changes nothing.\<close>

definition big_alpha :: real where
  "big_alpha = 2 ^ 60"

section \<open>Properties of the float model and of the recursion\<close>

lemma rrs_loop_stop: "\<not> t < n \<Longrightarrow> rrs_loop ar alpha beta n t p s = Inr (p, s)"
  by (subst rrs_loop.simps) simp

lemma rrs_loop_raise:
  "t < n \<Longrightarrow> step_ratio ar alpha beta t = Inl e \<Longrightarrow> rrs_loop ar alpha beta n t p s = Inl e"
  by (subst rrs_loop.simps) simp

lemma rrs_loop_step:
  assumes "t < n" "2 \<le> t" "length p = nat t" "length s = nat t"
    and "p ! nat (t - 1) = Some pp" "s ! nat (t - 1) = Some sp"
    and "step_ratio ar alpha beta t = Inr q"
  shows "rrs_loop ar alpha beta n t p s =
         rrs_loop ar alpha beta n (t + 1)
           (p @ [Some (f_mul ar q pp)]) (s @ [Some (f_sub ar sp (f_mul ar q pp))])"
  using assms
  by (subst rrs_loop.simps) (simp add: py_index_def as_float_def Let_def nth_append)

lemma rrs_loop_inv:
  assumes "2 \<le> t" "length p = nat t" "length s = nat t"
    and "\<forall>k. 1 \<le> k \<and> k < nat t \<longrightarrow> p ! k \<noteq> None \<and> s ! k \<noteq> None"
    and "\<forall>k. t \<le> k \<and> k < n \<longrightarrow> \<not> isl (step_ratio ar alpha beta k)"
  shows "\<exists>P S. rrs_loop ar alpha beta n t p s = Inr (P, S) \<and>
      length P = nat (max t n) \<and> length S = nat (max t n) \<and>
      take (nat t) P = p \<and> take (nat t) S = s \<and>
      (\<forall>k. t \<le> k \<and> k < n \<longrightarrow>
         (\<exists>p' s' q. P ! nat (k - 1) = Some p' \<and> S ! nat (k - 1) = Some s' \<and>
            step_ratio ar alpha beta k = Inr q \<and>
            P ! nat k = Some (f_mul ar q p') \<and> S ! nat k = Some (f_sub ar s' (f_mul ar q p'))))"
  using assms
proof (induction "nat (n - t)" arbitrary: t p s)
  case 0
  then have "\<not> t < n" by simp
  then show ?case using 0 by (auto simp add: rrs_loop_stop max_def)
next
  case (Suc d)
  then have lt: "t < n" by linarith
  have idx: "1 \<le> nat (t - 1) \<and> nat (t - 1) < nat t" using Suc.prems(1) by linarith
  with Suc.prems(4) obtain pp sp where
    pp: "p ! nat (t - 1) = Some pp" and sp: "s ! nat (t - 1) = Some sp"
    by (metis not_Some_eq)
  from Suc.prems(5) lt obtain q where q: "step_ratio ar alpha beta t = Inr q"
    by (cases "step_ratio ar alpha beta t") auto
  define pt where "pt = f_mul ar q pp"
  define p1 where "p1 = p @ [Some pt]"
  define s1 where "s1 = s @ [Some (f_sub ar sp pt)]"
  have step: "rrs_loop ar alpha beta n t p s = rrs_loop ar alpha beta n (t + 1) p1 s1"
    unfolding p1_def s1_def pt_def
    by (rule rrs_loop_step [OF lt Suc.prems(1) Suc.prems(2) Suc.prems(3) pp sp q])
  have d: "d = nat (n - (t + 1))" using Suc.hyps(2) by linarith
  have l1: "length p1 = nat (t + 1)" "length s1 = nat (t + 1)"
    using Suc.prems(1,2,3) by (simp_all add: p1_def s1_def nat_add_distrib)
  have some1: "\<forall>k. 1 \<le> k \<and> k < nat (t + 1) \<longrightarrow> p1 ! k \<noteq> None \<and> s1 ! k \<noteq> None"
    using Suc.prems by (auto simp: p1_def s1_def nth_append)
  have t1: "2 \<le> t + 1" using Suc.prems(1) by simp
  have div1: "\<forall>k. t + 1 \<le> k \<and> k < n \<longrightarrow> \<not> isl (step_ratio ar alpha beta k)"
    using Suc.prems(5) by simp
  from Suc.hyps(1) [OF d t1 l1 some1 div1] obtain P S where
    res: "rrs_loop ar alpha beta n (t + 1) p1 s1 = Inr (P, S)" and
    len: "length P = nat (max (t + 1) n)" "length S = nat (max (t + 1) n)" and
    tk: "take (nat (t + 1)) P = p1" "take (nat (t + 1)) S = s1" and
    rec: "\<forall>k. t + 1 \<le> k \<and> k < n \<longrightarrow>
         (\<exists>p' s' q. P ! nat (k - 1) = Some p' \<and> S ! nat (k - 1) = Some s' \<and>
            step_ratio ar alpha beta k = Inr q \<and>
            P ! nat k = Some (f_mul ar q p') \<and> S ! nat k = Some (f_sub ar s' (f_mul ar q p')))"
    by blast
  have nthP: "\<And>k. k < nat (t + 1) \<Longrightarrow> P ! k = p1 ! k"
    using tk(1) by (metis nth_take)
  have nthS: "\<And>k. k < nat (t + 1) \<Longrightarrow> S ! k = s1 ! k"
    using tk(2) by (metis nth_take)
  have tkp: "take (nat t) P = p"
  proof -
    have "take (nat t) P = take (nat t) (take (nat (t + 1)) P)"
      using Suc.prems(1) by (simp add: min_def)
    also have "\<dots> = p" using Suc.prems(2) by (simp add: tk p1_def)
    finally show ?thesis .
  qed
  have tks: "take (nat t) S = s"
  proof -
    have "take (nat t) S = take (nat t) (take (nat (t + 1)) S)"
      using Suc.prems(1) by (simp add: min_def)
    also have "\<dots> = s" using Suc.prems(3) by (simp add: tk s1_def)
    finally show ?thesis .
  qed
  have at_t: "P ! nat (t - 1) = Some pp" "S ! nat (t - 1) = Some sp"
       "P ! nat t = Some pt" "S ! nat t = Some (f_sub ar sp pt)"
    using Suc.prems(1,2,3) pp sp
    by (simp_all add: nthP nthS p1_def s1_def nth_append)
  have rec': "\<forall>k. t \<le> k \<and> k < n \<longrightarrow>
         (\<exists>p' s' q. P ! nat (k - 1) = Some p' \<and> S ! nat (k - 1) = Some s' \<and>
            step_ratio ar alpha beta k = Inr q \<and>
            P ! nat k = Some (f_mul ar q p') \<and> S ! nat k = Some (f_sub ar s' (f_mul ar q p')))"
  proof (intro allI impI)
    fix k assume k: "t \<le> k \<and> k < n"
    show "\<exists>p' s' q. P ! nat (k - 1) = Some p' \<and> S ! nat (k - 1) = Some s' \<and>
            step_ratio ar alpha beta k = Inr q \<and>
            P ! nat k = Some (f_mul ar q p') \<and> S ! nat k = Some (f_sub ar s' (f_mul ar q p'))"
    proof (cases "k = t")
      case True
      then show ?thesis using at_t q pt_def by simp
    next
      case False
      with k have "t + 1 \<le> k \<and> k < n" by simp
      with rec show ?thesis by blast
    qed
  qed
  have mx: "max (t + 1) n = max t n" using lt by simp
  show ?case
    using step res len tkp tks rec' mx by simp
qed

lemma rrs_loop_Inr_divisions:
  assumes "2 \<le> t" "length p = nat t" "length s = nat t"
    and "\<forall>k. 1 \<le> k \<and> k < nat t \<longrightarrow> p ! k \<noteq> None \<and> s ! k \<noteq> None"
    and "rrs_loop ar alpha beta n t p s = Inr (P, S)"
  shows "\<forall>k. t \<le> k \<and> k < n \<longrightarrow> \<not> isl (step_ratio ar alpha beta k)"
  using assms
proof (induction "nat (n - t)" arbitrary: t p s)
  case 0
  then have "\<not> t < n" by simp
  then show ?case by auto
next
  case (Suc d)
  then have lt: "t < n" by linarith
  obtain q where q: "step_ratio ar alpha beta t = Inr q"
  proof (cases "step_ratio ar alpha beta t")
    case (Inl e)
    from rrs_loop_raise [OF lt Inl] Suc.prems(5) show ?thesis by simp
  next
    case (Inr q)
    then show ?thesis by (rule that)
  qed
  have idx: "1 \<le> nat (t - 1) \<and> nat (t - 1) < nat t" using Suc.prems(1) by linarith
  with Suc.prems(4) obtain pp sp where
    pp: "p ! nat (t - 1) = Some pp" and sp: "s ! nat (t - 1) = Some sp"
    by (metis not_Some_eq)
  let ?p1 = "p @ [Some (f_mul ar q pp)]"
  let ?s1 = "s @ [Some (f_sub ar sp (f_mul ar q pp))]"
  have step: "rrs_loop ar alpha beta n t p s = rrs_loop ar alpha beta n (t + 1) ?p1 ?s1"
    by (rule rrs_loop_step [OF lt Suc.prems(1) Suc.prems(2) Suc.prems(3) pp sp q])
  have d: "d = nat (n - (t + 1))" using Suc.hyps(2) by linarith
  have l1: "length ?p1 = nat (t + 1)" "length ?s1 = nat (t + 1)"
    using Suc.prems(1,2,3) by (simp_all add: nat_add_distrib)
  have some1: "\<forall>k. 1 \<le> k \<and> k < nat (t + 1) \<longrightarrow> ?p1 ! k \<noteq> None \<and> ?s1 ! k \<noteq> None"
    using Suc.prems by (auto simp: nth_append)
  have t1: "2 \<le> t + 1" using Suc.prems(1) by simp
  have res: "rrs_loop ar alpha beta n (t + 1) ?p1 ?s1 = Inr (P, S)"
    using step Suc.prems(5) by simp
  from Suc.hyps(1) [OF d t1 l1 some1 res]
  have later: "\<forall>k. t + 1 \<le> k \<and> k < n \<longrightarrow> \<not> isl (step_ratio ar alpha beta k)" .
  show ?case
  proof (intro allI impI)
    fix k assume k: "t \<le> k \<and> k < n"
    show "\<not> isl (step_ratio ar alpha beta k)"
    proof (cases "k = t")
      case True
      then show ?thesis using q by simp
    next
      case False
      with k have "t + 1 \<le> k \<and> k < n" by simp
      with later show ?thesis by blast
    qed
  qed
qed

lemma no_division_raises_iff:
  "no_division_raises ar alpha beta n \<longleftrightarrow>
     \<not> isl (base_ratio ar alpha beta) \<and>
     (\<forall>k. 2 \<le> k \<and> k < n \<longrightarrow> \<not> isl (step_ratio ar alpha beta k))"
  by (auto simp: no_division_raises_def list_all_iff)

lemma rrs_returns:
  assumes "no_division_raises ar alpha beta n"
  shows "\<exists>P S p1. recursive_retention_stats ar alpha beta n = Inr (P, S) \<and>
      base_ratio ar alpha beta = Inr p1 \<and>
      length P = nat (max 2 n) \<and> length S = nat (max 2 n) \<and>
      take 2 P = [None, Some p1] \<and>
      take 2 S = [None, Some (f_sub ar (f_of_int ar 1) p1)] \<and>
      (\<forall>k. 2 \<le> k \<and> k < n \<longrightarrow>
         (\<exists>p' s' q. P ! nat (k - 1) = Some p' \<and> S ! nat (k - 1) = Some s' \<and>
            step_ratio ar alpha beta k = Inr q \<and>
            P ! nat k = Some (f_mul ar q p') \<and> S ! nat k = Some (f_sub ar s' (f_mul ar q p'))))"
proof -
  from assms obtain p1 where p1: "base_ratio ar alpha beta = Inr p1"
    unfolding no_division_raises_iff by (cases "base_ratio ar alpha beta") auto
  from assms have divs: "\<forall>k. 2 \<le> k \<and> k < n \<longrightarrow> \<not> isl (step_ratio ar alpha beta k)"
    unfolding no_division_raises_iff by simp
  let ?p = "[None, Some p1]"
  let ?s = "[None, Some (f_sub ar (f_of_int ar 1) p1)]"
  have some: "\<forall>k. 1 \<le> k \<and> k < nat 2 \<longrightarrow> ?p ! k \<noteq> None \<and> ?s ! k \<noteq> None"
    by (auto simp: less_Suc_eq numeral_2_eq_2)
  have "\<exists>P S. rrs_loop ar alpha beta n 2 ?p ?s = Inr (P, S) \<and>
      length P = nat (max 2 n) \<and> length S = nat (max 2 n) \<and>
      take (nat 2) P = ?p \<and> take (nat 2) S = ?s \<and>
      (\<forall>k. 2 \<le> k \<and> k < n \<longrightarrow>
         (\<exists>p' s' q. P ! nat (k - 1) = Some p' \<and> S ! nat (k - 1) = Some s' \<and>
            step_ratio ar alpha beta k = Inr q \<and>
            P ! nat k = Some (f_mul ar q p') \<and> S ! nat k = Some (f_sub ar s' (f_mul ar q p'))))"
    by (rule rrs_loop_inv [OF _ _ _ some divs]) simp_all
  then show ?thesis
    using p1 by (simp add: recursive_retention_stats_def Let_def)
qed

lemma rrs_Inr_no_division_raises:
  assumes "recursive_retention_stats ar alpha beta n = Inr (P, S)"
  shows "no_division_raises ar alpha beta n"
proof -
  obtain p1 where p1: "base_ratio ar alpha beta = Inr p1"
    using assms by (cases "base_ratio ar alpha beta") (simp_all add: recursive_retention_stats_def)
  let ?p = "[None, Some p1]"
  let ?s = "[None, Some (f_sub ar (f_of_int ar 1) p1)]"
  have some: "\<forall>k. 1 \<le> k \<and> k < nat 2 \<longrightarrow> ?p ! k \<noteq> None \<and> ?s ! k \<noteq> None"
    by (auto simp: less_Suc_eq numeral_2_eq_2)
  have res: "rrs_loop ar alpha beta n 2 ?p ?s = Inr (P, S)"
    using assms p1 by (simp add: recursive_retention_stats_def Let_def)
  have "\<forall>k. 2 \<le> k \<and> k < n \<longrightarrow> \<not> isl (step_ratio ar alpha beta k)"
    by (rule rrs_loop_Inr_divisions [OF _ _ _ some res]) simp_all
  then show ?thesis unfolding no_division_raises_iff using p1 by simp
qed

lemma exact_arith_simps [simp]:
  "f_add exact_arith = (+)" "f_sub exact_arith = (-)" "f_mul exact_arith = (*)"
  "f_div exact_arith a b = Inr (a / b)" "f_of_int exact_arith = np_of_int"
  by (simp_all add: exact_arith_def)

lemma exact_no_division_raises: "no_division_raises exact_arith alpha beta n"
  by (simp add: no_division_raises_iff base_ratio_def step_ratio_def)

lemma rrs_general:
  "\<exists>P S. recursive_retention_stats exact_arith alpha beta n = Inr (P, S) \<and>
      length P = nat (max 2 n) \<and> length S = nat (max 2 n) \<and>
      take 2 P = [None, Some (alpha / (alpha + beta))] \<and>
      take 2 S = [None, Some (Fin 1 - alpha / (alpha + beta))] \<and>
      (\<forall>k. 2 \<le> k \<and> k < n \<longrightarrow>
         (\<exists>p' s' pk. P ! nat (k - 1) = Some p' \<and> S ! nat (k - 1) = Some s' \<and>
            pk = (beta + np_of_int k - Fin 2) / (alpha + beta + np_of_int k - Fin 1) * p' \<and>
            P ! nat k = Some pk \<and> S ! nat k = Some (s' - pk)))"
  using rrs_returns [OF exact_no_division_raises, of alpha beta n]
  by (simp add: base_ratio_def step_ratio_def np_of_int_def)

lemma spec_PS_pos:
  assumes "0 < a" "0 < b"
  shows "0 < spec_P a b (Suc k) \<and> 0 < spec_S a b (Suc k) \<and>
         spec_P a b (Suc k) * (b + real k) = a * spec_S a b (Suc k)"
proof (induction k)
  case 0
  have "1 - a / (a + b) = b / (a + b)" using assms by (simp add: field_simps)
  then show ?case using assms by (simp add: field_simps)
next
  case (Suc k)
  let ?d = "a + b + real k + 1"
  have d: "0 < ?d" using assms by linarith
  have P: "spec_P a b (Suc (Suc k)) = a * spec_S a b (Suc k) / ?d"
    using Suc by (simp add: mult.commute)
  have S: "spec_S a b (Suc (Suc k)) = spec_S a b (Suc k) * (b + real k + 1) / ?d"
  proof -
    have "spec_S a b (Suc (Suc k)) = spec_S a b (Suc k) - a * spec_S a b (Suc k) / ?d"
      using P by simp
    also have "\<dots> = spec_S a b (Suc k) * (b + real k + 1) / ?d"
      using d by (simp add: field_simps)
    finally show ?thesis .
  qed
  have "0 < spec_P a b (Suc (Suc k))" unfolding P using Suc assms d by simp
  moreover have "0 < spec_S a b (Suc (Suc k))" unfolding S using Suc assms d
    by (simp add: add_pos_nonneg)
  moreover have "spec_P a b (Suc (Suc k)) * (b + real (Suc k)) = a * spec_S a b (Suc (Suc k))"
    unfolding P S by (simp add: field_simps)
  ultimately show ?case by blast
qed

lemma spec_P_sum: "(\<Sum>k = 1..<Suc n. spec_P a b k) = 1 - spec_S a b n"
  by (induction n) simp_all

lemma spec_P_rec:
  assumes "2 \<le> (k::int)"
  shows "spec_P a b (nat k) =
         (b + of_int k - 2) / (a + b + of_int k - 1) * spec_P a b (nat (k - 1))"
proof -
  define j where "j = nat (k - 2)"
  have k: "k = int j + 2" using assms by (simp add: j_def)
  have j: "nat k = Suc (Suc j)" using k by simp
  have "nat (k - 1) = Suc j" using k by simp
  then show ?thesis using j k by (simp add: algebra_simps)
qed

lemma fin_step:
  "a + b + real_of_int k - 1 \<noteq> 0 \<Longrightarrow>
   (Fin b + np_of_int k - Fin 2) / (Fin a + Fin b + np_of_int k - Fin 1) * Fin p =
   Fin ((b + of_int k - 2) / (a + b + of_int k - 1) * p)"
  by (simp add: np_of_int_def minus_npfloat_def)


lemma rrs_real:
  assumes a: "0 < a" and b: "0 < b"
    and res: "recursive_retention_stats exact_arith (Fin a) (Fin b) n = Inr (P, S)"
  shows "1 \<le> k \<longrightarrow> k < nat (max 2 n) \<longrightarrow>
         P ! k = Some (Fin (spec_P a b k)) \<and> S ! k = Some (Fin (spec_S a b k))"
proof -
  from rrs_general [of "Fin a" "Fin b" n] res have
    tk: "take 2 P = [None, Some (Fin a / (Fin a + Fin b))]"
        "take 2 S = [None, Some (Fin 1 - Fin a / (Fin a + Fin b))]" and
    rec: "\<forall>k. 2 \<le> k \<and> k < n \<longrightarrow>
         (\<exists>p' s' pk. P ! nat (k - 1) = Some p' \<and> S ! nat (k - 1) = Some s' \<and>
            pk = (Fin b + np_of_int k - Fin 2) / (Fin a + Fin b + np_of_int k - Fin 1) * p' \<and>
            P ! nat k = Some pk \<and> S ! nat k = Some (s' - pk))"
    by auto
  have ab: "a + b \<noteq> 0" using a b by linarith
  have P1: "P ! 1 = Some (Fin (a / (a + b)))"
  proof -
    have "P ! 1 = take 2 P ! 1" by simp
    also have "\<dots> = Some (Fin (a / (a + b)))" unfolding tk using ab by simp
    finally show ?thesis .
  qed
  have S1: "S ! 1 = Some (Fin (1 - a / (a + b)))"
  proof -
    have "S ! 1 = take 2 S ! 1" by simp
    also have "\<dots> = Some (Fin (1 - a / (a + b)))"
      unfolding tk using ab by (simp add: minus_npfloat_def)
    finally show ?thesis .
  qed
  show ?thesis
  proof (induction k)
    case 0
    show ?case by simp
  next
    case (Suc k)
    show ?case
    proof (cases "k = 0")
      case True
      then show ?thesis using P1 S1 by simp
    next
      case False
      show ?thesis
      proof (intro impI)
        assume lt: "Suc k < nat (max 2 n)"
        let ?t = "int (Suc k)"
        have t: "2 \<le> ?t \<and> ?t < n" using False lt by linarith
        from Suc False lt have
          ih: "P ! k = Some (Fin (spec_P a b k))" "S ! k = Some (Fin (spec_S a b k))"
          by simp_all
        from rec t obtain p' s' pk where
          st: "P ! nat (?t - 1) = Some p'" "S ! nat (?t - 1) = Some s'"
              "pk = (Fin b + np_of_int ?t - Fin 2) / (Fin a + Fin b + np_of_int ?t - Fin 1) * p'"
              "P ! nat ?t = Some pk" "S ! nat ?t = Some (s' - pk)"
          by blast
        have k1: "nat (?t - 1) = k" by simp
        have p': "p' = Fin (spec_P a b k)" and s': "s' = Fin (spec_S a b k)"
          using st(1,2) ih unfolding k1 by simp_all
        have nz: "a + b + real_of_int ?t - 1 \<noteq> 0" using a b by simp
        have "pk = Fin ((b + of_int ?t - 2) / (a + b + of_int ?t - 1) * spec_P a b k)"
          unfolding st(3) p' by (rule fin_step [OF nz])
        also have "(b + of_int ?t - 2) / (a + b + of_int ?t - 1) * spec_P a b k = spec_P a b (Suc k)"
        proof -
          have "2 \<le> ?t" using t by simp
          then have "spec_P a b (nat ?t) =
            (b + of_int ?t - 2) / (a + b + of_int ?t - 1) * spec_P a b (nat (?t - 1))"
            by (rule spec_P_rec)
          then show ?thesis by (simp only: k1 nat_int)
        qed
        finally have pk: "pk = Fin (spec_P a b (Suc k))" .
        have nt: "nat ?t = Suc k" by (simp only: nat_int)
        have "P ! Suc k = Some (Fin (spec_P a b (Suc k)))"
          using st(4) pk unfolding nt by simp
        moreover have "S ! Suc k = Some (Fin (spec_S a b (Suc k)))"
          using st(5) pk s' unfolding nt by (simp add: minus_npfloat_def)
        ultimately show "P ! Suc k = Some (Fin (spec_P a b (Suc k))) \<and>
           S ! Suc k = Some (Fin (spec_S a b (Suc k)))" by simp
      qed
    qed
  qed
qed


lemma spec_S_ge0: "0 < a \<Longrightarrow> 0 < b \<Longrightarrow> 0 \<le> spec_S a b k"
  using spec_PS_pos [of a b "k - 1"] by (cases k) simp_all

lemma spec_S_antimono:
  assumes "0 < a" "0 < b" "i \<le> j"
  shows "spec_S a b j \<le> spec_S a b i"
proof (rule lift_Suc_antimono_le [OF _ assms(3)])
  fix n
  show "spec_S a b (Suc n) \<le> spec_S a b n"
    using spec_PS_pos [OF assms(1,2), of n] by simp
qed

lemma nth_from1: "Suc j < N \<Longrightarrow> (x # map f [1..<N]) ! Suc j = f (Suc j)"
  by (simp del: upt_Suc)

lemma rrs_real_lists:
  assumes a: "0 < a" and b: "0 < b"
  shows "recursive_retention_stats exact_arith (Fin a) (Fin b) n =
         Inr (None # map (\<lambda>k. Some (Fin (spec_P a b k))) [1..<nat (max 2 n)],
              None # map (\<lambda>k. Some (Fin (spec_S a b k))) [1..<nat (max 2 n)])"
proof -
  from rrs_general [of "Fin a" "Fin b" n] obtain P S where
    res: "recursive_retention_stats exact_arith (Fin a) (Fin b) n = Inr (P, S)" and
    len: "length P = nat (max 2 n)" "length S = nat (max 2 n)" and
    tk: "take 2 P = [None, Some (Fin a / (Fin a + Fin b))]"
        "take 2 S = [None, Some (Fin 1 - Fin a / (Fin a + Fin b))]"
    by blast
  have P0: "P ! 0 = None"
  proof -
    have "P ! 0 = take 2 P ! 0" by simp
    then show ?thesis unfolding tk by simp
  qed
  have S0: "S ! 0 = None"
  proof -
    have "S ! 0 = take 2 S ! 0" by simp
    then show ?thesis unfolding tk by simp
  qed
  have N: "0 < nat (max 2 n)" by simp
  have "P = None # map (\<lambda>k. Some (Fin (spec_P a b k))) [1..<nat (max 2 n)]"
  proof (rule nth_equalityI)
    show "length P = length (None # map (\<lambda>k. Some (Fin (spec_P a b k))) [1..<nat (max 2 n)])"
      using len N by simp
  next
    fix i assume i: "i < length P"
    show "P ! i = (None # map (\<lambda>k. Some (Fin (spec_P a b k))) [1..<nat (max 2 n)]) ! i"
    proof (cases i)
      case 0
      then show ?thesis using P0 by simp
    next
      case (Suc j)
      then have "1 \<le> i" "i < nat (max 2 n)" using i len by simp_all
      with rrs_real [OF a b res, of i] have "P ! i = Some (Fin (spec_P a b i))" by simp
      moreover have "Suc j < nat (max 2 n)" using Suc i len by simp
      ultimately show ?thesis unfolding Suc by (simp only: nth_from1)
    qed
  qed
  moreover have "S = None # map (\<lambda>k. Some (Fin (spec_S a b k))) [1..<nat (max 2 n)]"
  proof (rule nth_equalityI)
    show "length S = length (None # map (\<lambda>k. Some (Fin (spec_S a b k))) [1..<nat (max 2 n)])"
      using len N by simp
  next
    fix i assume i: "i < length S"
    show "S ! i = (None # map (\<lambda>k. Some (Fin (spec_S a b k))) [1..<nat (max 2 n)]) ! i"
    proof (cases i)
      case 0
      then show ?thesis using S0 by simp
    next
      case (Suc j)
      then have "1 \<le> i" "i < nat (max 2 n)" using i len by simp_all
      with rrs_real [OF a b res, of i] have "S ! i = Some (Fin (spec_S a b i))" by simp
      moreover have "Suc j < nat (max 2 n)" using Suc i len by simp
      ultimately show ?thesis unfolding Suc by (simp only: nth_from1)
    qed
  qed
  ultimately show ?thesis using res by simp
qed

subsection \<open>Float64 rounding\<close>

lemma rhe_lower: "\<lfloor>m\<rfloor> \<le> round_half_even m"
  by (simp add: round_half_even_def Let_def)

lemma rhe_upper: "round_half_even m \<le> \<lceil>m\<rceil>"
proof -
  have "\<lfloor>m\<rfloor> + 1 \<le> \<lceil>m\<rceil>" if "m - of_int \<lfloor>m\<rfloor> \<noteq> 0"
    using that by (metis ceiling_altdef diff_eq_eq add.commute add_0 order_refl)
  then show ?thesis
    by (auto simp: round_half_even_def Let_def)
qed

lemma rhe_of_int [simp]: "round_half_even (of_int k) = k"
  by (simp add: round_half_even_def)

lemma rhe_mono:
  assumes "m \<le> m'"
  shows "round_half_even m \<le> round_half_even m'"
proof (cases "\<lfloor>m\<rfloor> = \<lfloor>m'\<rfloor>")
  case True
  then have "m - of_int \<lfloor>m\<rfloor> \<le> m' - of_int \<lfloor>m'\<rfloor>" using assms by simp
  then show ?thesis
    using True by (auto simp: round_half_even_def Let_def)
next
  case False
  with assms have lt: "\<lfloor>m\<rfloor> < \<lfloor>m'\<rfloor>" using floor_mono [OF assms] by linarith
  have "round_half_even m \<le> \<lfloor>m\<rfloor> + 1"
    by (auto simp: round_half_even_def Let_def)
  also have "\<dots> \<le> \<lfloor>m'\<rfloor>" using lt by simp
  also have "\<dots> \<le> round_half_even m'" by (rule rhe_lower)
  finally show ?thesis .
qed


lemma pow2_pos [simp]: "0 < pow2 e"
  by (simp add: pow2_def)

lemma pow2_nonneg [simp]: "0 \<le> pow2 e"
  by (simp add: pow2_def)

lemma pow2_neq_0 [simp]: "pow2 e \<noteq> 0"
  by (simp add: pow2_def)

lemma pow2_add: "pow2 (a + b) = pow2 a * pow2 b"
  by (simp add: pow2_def powr_add)

lemma pow2_mono: "a \<le> b \<Longrightarrow> pow2 a \<le> pow2 b"
  by (simp add: pow2_def)

lemma pow2_nat: "pow2 (int n) = 2 ^ n"
  by (simp add: pow2_def powr_realpow)

lemma ulp_exponent_ge: "- 1074 \<le> f64_ulp_exponent x"
  by (simp add: f64_ulp_exponent_def)

lemma ulp_exponent_mono:
  assumes "0 < x" "x \<le> y"
  shows "f64_ulp_exponent x \<le> f64_ulp_exponent y"
proof -
  have "log 2 x \<le> log 2 y" using assms by simp
  then have "\<lfloor>log 2 x\<rfloor> \<le> \<lfloor>log 2 y\<rfloor>" by (rule floor_mono)
  then show ?thesis by (simp add: f64_ulp_exponent_def)
qed

lemma binade:
  assumes "0 < x"
  shows "pow2 \<lfloor>log 2 x\<rfloor> \<le> x" and "x < pow2 (\<lfloor>log 2 x\<rfloor> + 1)"
  using floor_log_eq_powr_iff [of x 2 "\<lfloor>log 2 x\<rfloor>"] assms by (simp_all add: pow2_def)

lemma scaled_upper:
  assumes "0 < x"
  shows "x / pow2 (f64_ulp_exponent x) < 2 ^ 53"
proof -
  let ?l = "\<lfloor>log 2 x\<rfloor>"
  let ?e = "f64_ulp_exponent x"
  have le: "?l + 1 \<le> ?e + 53" by (simp add: f64_ulp_exponent_def)
  have "x < pow2 (?l + 1)" by (rule binade(2) [OF assms])
  also have "\<dots> \<le> pow2 (?e + 53)" by (rule pow2_mono [OF le])
  also have "\<dots> = pow2 ?e * 2 ^ 53" using pow2_nat [of 53] by (simp add: pow2_add)
  finally show ?thesis by (simp add: field_simps)
qed

lemma scaled_lower:
  assumes "0 < x" and "- 1074 < f64_ulp_exponent x"
  shows "2 ^ 52 \<le> x / pow2 (f64_ulp_exponent x)"
proof -
  let ?l = "\<lfloor>log 2 x\<rfloor>"
  let ?e = "f64_ulp_exponent x"
  have e: "?e + 52 = ?l" using assms(2) by (simp add: f64_ulp_exponent_def max_def split: if_splits)
  have "pow2 ?e * 2 ^ 52 = pow2 (?e + 52)" using pow2_nat [of 52] by (simp add: pow2_add)
  also have "\<dots> \<le> x" unfolding e by (rule binade(1) [OF assms(1)])
  finally show ?thesis by (simp add: field_simps)
qed

lemma scaled_round_bounds:
  assumes "0 < x"
  shows "0 \<le> round_half_even (x / pow2 (f64_ulp_exponent x))"
    and "round_half_even (x / pow2 (f64_ulp_exponent x)) \<le> 2 ^ 53"
    and "- 1074 < f64_ulp_exponent x \<Longrightarrow>
           2 ^ 52 \<le> round_half_even (x / pow2 (f64_ulp_exponent x))"
proof -
  let ?m = "x / pow2 (f64_ulp_exponent x)"
  have m0: "0 \<le> ?m" using assms by (intro divide_nonneg_pos) simp_all
  have "(0::int) \<le> \<lfloor>?m\<rfloor>" using m0 by simp
  then show "0 \<le> round_half_even ?m" using rhe_lower [of ?m] by linarith
  have "?m \<le> of_int (2 ^ 53)" using scaled_upper [OF assms] by simp
  then have "\<lceil>?m\<rceil> \<le> 2 ^ 53" by (simp only: ceiling_le_iff)
  then show "round_half_even ?m \<le> 2 ^ 53" using rhe_upper [of ?m] by linarith
  assume "- 1074 < f64_ulp_exponent x"
  then have "of_int (2 ^ 52) \<le> ?m" using scaled_lower [OF assms] by simp
  then have "2 ^ 52 \<le> \<lfloor>?m\<rfloor>" by (simp only: le_floor_iff)
  then show "2 ^ 52 \<le> round_half_even ?m" using rhe_lower [of ?m] by linarith
qed

lemma nearest_nonneg: "0 < x \<Longrightarrow> 0 \<le> f64_nearest x"
  using scaled_round_bounds(1) [of x] by (simp add: f64_nearest_def mult_nonneg_nonneg)

lemma nearest_mono:
  assumes "0 < x" "x \<le> y"
  shows "f64_nearest x \<le> f64_nearest y"
proof -
  let ?ex = "f64_ulp_exponent x" and ?ey = "f64_ulp_exponent y"
  let ?kx = "round_half_even (x / pow2 ?ex)"
  let ?ky = "round_half_even (y / pow2 ?ey)"
  have y: "0 < y" using assms by linarith
  have ee: "?ex \<le> ?ey" by (rule ulp_exponent_mono [OF assms])
  show ?thesis
  proof (cases "?ex = ?ey")
    case True
    have "x / pow2 ?ex \<le> y / pow2 ?ex"
      using assms(2) by (intro divide_right_mono) simp_all
    then have "?kx \<le> round_half_even (y / pow2 ?ex)" by (rule rhe_mono)
    then have "real_of_int ?kx \<le> real_of_int (round_half_even (y / pow2 ?ex))"
      by simp
    then have "real_of_int ?kx * pow2 ?ex
               \<le> real_of_int (round_half_even (y / pow2 ?ex)) * pow2 ?ex"
      by (intro mult_right_mono) simp_all
    then show ?thesis unfolding f64_nearest_def True [symmetric] .
  next
    case False
    with ee have lt: "?ex + 1 \<le> ?ey" by simp
    have ey: "- 1074 < ?ey" using lt ulp_exponent_ge [of x] by linarith
    have "real_of_int ?kx \<le> real_of_int (2 ^ 53)"
      using scaled_round_bounds(2) [OF assms(1)] by (simp only: of_int_le_iff)
    then have "real_of_int ?kx * pow2 ?ex \<le> 2 ^ 53 * pow2 ?ex"
      by (intro mult_right_mono) simp_all
    also have "\<dots> = 2 ^ 52 * pow2 (?ex + 1)"
      using pow2_nat [of 1] by (simp add: pow2_add)
    also have "\<dots> \<le> 2 ^ 52 * pow2 ?ey"
      using pow2_mono [OF lt] by (intro mult_left_mono) simp_all
    also have "\<dots> \<le> real_of_int ?ky * pow2 ?ey"
    proof (intro mult_right_mono)
      have "real_of_int (2 ^ 52) \<le> real_of_int ?ky"
        using scaled_round_bounds(3) [OF y ey] by (simp only: of_int_le_iff)
      then show "(2 ^ 52 :: real) \<le> real_of_int ?ky" by simp
    qed simp
    finally show ?thesis unfolding f64_nearest_def .
  qed
qed


lemma pow2_less_cancel: "pow2 a < pow2 b \<Longrightarrow> a < b"
  by (simp add: pow2_def)

lemma pow2_diff_nat: "a \<le> b \<Longrightarrow> pow2 b = 2 ^ nat (b - a) * pow2 a"
proof -
  assume "a \<le> b"
  then have "b = int (nat (b - a)) + a" by simp
  then have "pow2 b = pow2 (int (nat (b - a)) + a)" by simp
  also have "\<dots> = 2 ^ nat (b - a) * pow2 a" by (simp only: pow2_add pow2_nat)
  finally show ?thesis .
qed

lemma ulp_exponent_le:
  assumes "0 < r" and "r < pow2 (e + 53)" and "- 1074 \<le> e"
  shows "f64_ulp_exponent r \<le> e"
proof -
  have "pow2 \<lfloor>log 2 r\<rfloor> < pow2 (e + 53)"
    using binade(1) [OF assms(1)] assms(2) by linarith
  then have "\<lfloor>log 2 r\<rfloor> < e + 53" by (rule pow2_less_cancel)
  then show ?thesis using assms(3) by (simp add: f64_ulp_exponent_def)
qed

lemma nearest_dyadic:
  assumes "0 < k" and "k < 2 ^ 53" and "- 1074 \<le> e"
  shows "f64_nearest (of_int k * pow2 e) = of_int k * pow2 e"
proof -
  let ?r = "of_int k * pow2 e"
  let ?e' = "f64_ulp_exponent ?r"
  have r: "0 < ?r" using assms(1) by simp
  have "real_of_int k < real_of_int (2 ^ 53)" using assms(2) by (simp only: of_int_less_iff)
  then have "?r < 2 ^ 53 * pow2 e" by (intro mult_strict_right_mono) simp_all
  also have "\<dots> = pow2 (e + 53)" using pow2_nat [of 53] by (simp add: pow2_add)
  finally have "?r < pow2 (e + 53)" .
  then have le: "?e' \<le> e" using r assms(3) by (intro ulp_exponent_le)
  let ?n = "nat (e - ?e')"
  have p: "pow2 e = 2 ^ ?n * pow2 ?e'" by (rule pow2_diff_nat [OF le])
  have "?r / pow2 ?e' = of_int k * 2 ^ ?n * pow2 ?e' / pow2 ?e'"
    by (subst p) simp
  also have "\<dots> = of_int (k * 2 ^ ?n)" by simp
  finally have m: "?r / pow2 ?e' = of_int (k * 2 ^ ?n)" .
  have "f64_nearest ?r = of_int (k * 2 ^ ?n) * pow2 ?e'"
    unfolding f64_nearest_def m by (simp only: rhe_of_int)
  also have "\<dots> = of_int k * (2 ^ ?n * pow2 ?e')" by simp
  also have "\<dots> = ?r" by (simp only: p [symmetric])
  finally show ?thesis .
qed

lemma nearest_idem:
  assumes "0 < x"
  shows "f64_nearest (f64_nearest x) = f64_nearest x \<or> f64_nearest x = 0"
proof -
  let ?e = "f64_ulp_exponent x"
  let ?k = "round_half_even (x / pow2 ?e)"
  have k: "0 \<le> ?k" "?k \<le> 2 ^ 53" using scaled_round_bounds(1,2) [OF assms] by simp_all
  have e: "- 1074 \<le> ?e" by (rule ulp_exponent_ge)
  consider "?k = 0" | "0 < ?k" "?k < 2 ^ 53" | "?k = 2 ^ 53" using k by linarith
  then show ?thesis
  proof cases
    case 1
    then show ?thesis by (simp add: f64_nearest_def)
  next
    case 2
    have "f64_nearest (of_int ?k * pow2 ?e) = of_int ?k * pow2 ?e"
      by (rule nearest_dyadic [OF 2 e])
    then show ?thesis by (simp add: f64_nearest_def)
  next
    case 3
    have n: "f64_nearest x = of_int (2 ^ 52) * pow2 (?e + 1)"
      unfolding f64_nearest_def 3 using pow2_nat [of 1] by (simp add: pow2_add)
    have "f64_nearest (of_int (2 ^ 52) * pow2 (?e + 1)) = of_int (2 ^ 52) * pow2 (?e + 1)"
      using e by (intro nearest_dyadic) simp_all
    then show ?thesis unfolding n by simp
  qed
qed

lemma np_le_refl: "a \<noteq> NaN \<Longrightarrow> np_le a a"
  by (cases a) simp_all

lemma np_le_trans: "np_le a b \<Longrightarrow> np_le b c \<Longrightarrow> np_le a c"
  by (cases a; cases b; cases c) simp_all

lemma np_le_uminus: "np_le a b \<Longrightarrow> np_le (- b) (- a)"
  by (cases a; cases b) simp_all

lemma round_pos_cases:
  assumes "0 < x"
  obtains "f64_round_pos x = PInf"
  | r where "f64_round_pos x = Fin r" "0 \<le> r" "r < f64_limit" "r = f64_nearest x"
proof (cases "f64_limit \<le> f64_nearest x")
  case True
  then have "f64_round_pos x = PInf" by (simp add: f64_round_pos_def)
  then show ?thesis by (rule that(1))
next
  case False
  then have "f64_round_pos x = Fin (f64_nearest x)" "f64_nearest x < f64_limit"
    by (simp_all add: f64_round_pos_def)
  then show ?thesis using nearest_nonneg [OF assms] by (intro that(2)) simp_all
qed

lemma round_pos_mono:
  assumes "0 < x" "x \<le> y"
  shows "np_le (f64_round_pos x) (f64_round_pos y)"
  using nearest_mono [OF assms] by (auto simp: f64_round_pos_def)

lemma f64_round_mono:
  assumes "x \<le> y"
  shows "np_le (f64_round x) (f64_round y)"
proof -
  have neg: "np_le (- f64_round_pos (- x)) (Fin 0)" if "x < 0" for x
  proof -
    from that have "0 < - x" by simp
    then show ?thesis by (rule round_pos_cases) simp_all
  qed
  have pos: "np_le (Fin 0) (f64_round_pos y)" if "0 < y" for y
    using that by (rule round_pos_cases) simp_all
  consider "0 < x" | "x = 0" "y = 0" | "x = 0" "0 < y" | "x < 0" "y = 0" | "x < 0" "0 < y"
    | "x < 0" "y < 0" using assms by linarith
  then show ?thesis
  proof cases
    case 1
    then have "0 < y" using assms by linarith
    with 1 round_pos_mono [OF 1 assms] show ?thesis by (simp add: f64_round_def)
  next
    case 2
    then show ?thesis by (simp add: f64_round_def)
  next
    case 3
    then show ?thesis using pos by (simp add: f64_round_def)
  next
    case 4
    then show ?thesis using neg by (simp add: f64_round_def)
  next
    case 5
    then show ?thesis using np_le_trans [OF neg pos] by (simp add: f64_round_def)
  next
    case 6
    then have "0 < - y" "- y \<le> - x" using assms by simp_all
    from np_le_uminus [OF round_pos_mono [OF this]] 6 show ?thesis
      by (simp add: f64_round_def)
  qed
qed

lemma f64_round_idem:
  assumes "f64_round x = Fin r"
  shows "f64_round r = Fin r"
proof -
  have pos: "f64_round r = Fin r" if x: "0 < x" and r: "f64_round_pos x = Fin r" for x r
  proof -
    from r have n: "f64_nearest x = r" "r < f64_limit"
      by (auto simp: f64_round_pos_def split: if_splits)
    have r0: "0 \<le> r" using nearest_nonneg [OF x] n by simp
    show ?thesis
    proof (cases "r = 0")
      case True
      then show ?thesis by (simp add: f64_round_def)
    next
      case False
      with r0 have "0 < r" by simp
      moreover from nearest_idem [OF x] False n have "f64_nearest r = r" by simp
      ultimately show ?thesis using n by (simp add: f64_round_def f64_round_pos_def)
    qed
  qed
  consider "x = 0" | "0 < x" | "x < 0" by linarith
  then show ?thesis
  proof cases
    case 1
    with assms show ?thesis by (simp add: f64_round_def)
  next
    case 2
    with assms have "f64_round_pos x = Fin r" by (simp add: f64_round_def)
    from pos [OF 2 this] show ?thesis .
  next
    case 3
    with assms have m: "- f64_round_pos (- x) = Fin r" by (simp add: f64_round_def)
    then have p: "f64_round_pos (- x) = Fin (- r)"
      by (cases "f64_round_pos (- x)") simp_all
    from 3 have "0 < - x" by simp
    from pos [OF this p] have q: "f64_round (- r) = Fin (- r)" .
    show ?thesis
    proof (cases "r = 0")
      case True
      then show ?thesis by (simp add: f64_round_def)
    next
      case False
      from 3 have "0 < - x" by simp
      then have "0 \<le> f64_nearest (- x)" by (rule nearest_nonneg)
      moreover from p have "f64_nearest (- x) = - r"
        by (auto simp: f64_round_pos_def split: if_splits)
      ultimately have "r < 0" using False by simp
      with q show ?thesis
        by (cases "f64_round_pos (- r)") (simp_all add: f64_round_def split: if_splits)
    qed
  qed
qed


lemma f64_limit_pow2: "f64_limit = pow2 1024"
  using pow2_nat [of 1024] by (simp add: f64_limit_def)

lemma f64_max_pow2: "f64_max = of_int (2 ^ 53 - 1) * pow2 971"
  using pow2_nat [of 971] by (simp add: f64_max_def)

lemma f64_max_less_limit: "f64_max < f64_limit"
proof -
  have "f64_max < 2 ^ 53 * pow2 971"
    unfolding f64_max_pow2 by (intro mult_strict_right_mono) simp_all
  also have "(2 :: real) ^ 53 = pow2 53" using pow2_nat [of 53] by simp
  also have "pow2 53 * pow2 971 = pow2 1024" by (simp add: pow2_add [symmetric])
  finally show ?thesis by (simp add: f64_limit_pow2)
qed

lemma ulp_exponent_eq:
  assumes "pow2 (e + 52) \<le> x" and "x < pow2 (e + 53)" and "- 1074 \<le> e"
  shows "f64_ulp_exponent x = e"
proof -
  have x: "0 < x" using pow2_pos [of "e + 52"] assms(1) by linarith
  have "\<lfloor>log 2 x\<rfloor> = e + 52"
    using assms(1,2) x by (subst floor_log_eq_powr_iff) (simp_all add: pow2_def add.assoc)
  then show ?thesis using assms(3) by (simp add: f64_ulp_exponent_def)
qed

lemma nearest_down:
  assumes "pow2 (e + 52) \<le> x" and "x < pow2 (e + 53)" and "- 1074 \<le> e"
    and "x = (of_int k + d) * pow2 e" and "0 \<le> d" and "d < 1 / 2"
  shows "f64_nearest x = of_int k * pow2 e"
proof -
  have e: "f64_ulp_exponent x = e" by (rule ulp_exponent_eq [OF assms(1,2,3)])
  have m: "x / pow2 e = of_int k + d" unfolding assms(4) by simp
  have f: "\<lfloor>of_int k + d\<rfloor> = k" using assms(5,6) by (intro floor_unique) simp_all
  have "round_half_even (of_int k + d) = k"
    using assms(5,6) by (simp add: round_half_even_def f del: floor_add_int floor_add2)
  then show ?thesis by (simp add: f64_nearest_def e m)
qed

lemma nearest_up:
  assumes "pow2 (e + 52) \<le> x" and "x < pow2 (e + 53)" and "- 1074 \<le> e"
    and "x = (of_int k + d) * pow2 e" and "1 / 2 < d" and "d < 1"
  shows "f64_nearest x = of_int (k + 1) * pow2 e"
proof -
  have e: "f64_ulp_exponent x = e" by (rule ulp_exponent_eq [OF assms(1,2,3)])
  have m: "x / pow2 e = of_int k + d" unfolding assms(4) by simp
  have f: "\<lfloor>of_int k + d\<rfloor> = k" using assms(5,6) by (intro floor_unique) simp_all
  have "round_half_even (of_int k + d) = k + 1"
    using assms(5,6) by (simp add: round_half_even_def f del: floor_add_int floor_add2)
  then show ?thesis by (simp add: f64_nearest_def e m)
qed

lemma is_f64_round: "f64_round x = Fin r \<Longrightarrow> is_f64 r"
  unfolding is_f64_def by (rule f64_round_idem)

lemma is_f64_0 [simp]: "is_f64 0"
  by (simp add: is_f64_def f64_round_def)

lemma np_uminus_eq_Fin: "- a = Fin x \<longleftrightarrow> a = Fin (- x)"
  by (cases a) auto

lemma is_f64_uminus: "is_f64 x \<Longrightarrow> is_f64 (- x)"
  by (cases "x = 0"; cases "0 < x")
     (auto simp: is_f64_def f64_round_def np_uminus_eq_Fin split: if_splits)

lemma is_f64_dyadic:
  assumes "0 < k" and "k < 2 ^ 53" and "- 1074 \<le> e" and "of_int k * pow2 e < f64_limit"
  shows "is_f64 (of_int k * pow2 e)"
proof -
  have "0 < of_int k * pow2 e" using assms(1) by simp
  then show ?thesis
    using nearest_dyadic [OF assms(1,2,3)] assms(4)
    by (simp add: is_f64_def f64_round_def f64_round_pos_def)
qed

lemma small_less_limit: "x < 2 ^ 53 \<Longrightarrow> x < f64_limit"
proof -
  assume "x < 2 ^ 53"
  also have "(2 ^ 53 :: real) = pow2 53" using pow2_nat [of 53] by simp
  also have "\<dots> \<le> pow2 1024" by (rule pow2_mono) simp
  finally show ?thesis by (simp add: f64_limit_pow2)
qed

lemma is_f64_int:
  assumes "\<bar>i\<bar> < 2 ^ 53"
  shows "is_f64 (of_int i)"
proof -
  have pos: "is_f64 (of_int j)" if "0 < j" "j < 2 ^ 53" for j :: int
  proof -
    have "real_of_int j < real_of_int (2 ^ 53)" using that(2) by (simp only: of_int_less_iff)
    then have "of_int j * pow2 0 < f64_limit" using small_less_limit [of "of_int j"]
      by (simp add: pow2_def)
    from is_f64_dyadic [OF that _ this] show ?thesis by (simp add: pow2_def)
  qed
  consider "i = 0" | "0 < i" | "i < 0" by linarith
  then show ?thesis
  proof cases
    case 1
    then show ?thesis by simp
  next
    case 2
    with assms show ?thesis by (intro pos) simp_all
  next
    case 3
    with assms have "is_f64 (of_int (- i))" by (intro pos) simp_all
    from is_f64_uminus [OF this] show ?thesis by simp
  qed
qed

lemma is_f64_max: "is_f64 f64_max"
  unfolding f64_max_pow2
  using f64_max_less_limit
  by (intro is_f64_dyadic) (simp_all add: f64_max_pow2)

lemma is_f64_le_max:
  assumes "is_f64 b" and "0 < b"
  shows "b \<le> f64_max"
proof -
  let ?e = "f64_ulp_exponent b"
  let ?k = "round_half_even (b / pow2 ?e)"
  from assms have n: "f64_nearest b = b" "b < f64_limit"
    by (auto simp: is_f64_def f64_round_def f64_round_pos_def split: if_splits)
  then have b: "of_int ?k * pow2 ?e = b" by (simp add: f64_nearest_def)
  then have "real_of_int ?k = b / pow2 ?e" by (simp add: field_simps)
  then have "real_of_int ?k < real_of_int (2 ^ 53)"
    using scaled_upper [OF assms(2)] by simp
  then have "?k < 2 ^ 53" by (simp only: of_int_less_iff)
  then have k: "?k \<le> 2 ^ 53 - 1" by simp
  have k0: "0 \<le> ?k" by (rule scaled_round_bounds(1) [OF assms(2)])
  have "b < pow2 (971 + 53)" using n(2) by (simp add: f64_limit_pow2)
  then have e: "?e \<le> 971" using assms(2) by (intro ulp_exponent_le) simp_all
  have "b = of_int ?k * pow2 ?e" using b by simp
  also have "\<dots> \<le> of_int (2 ^ 53 - 1) * pow2 ?e"
    using k by (intro mult_right_mono) (simp_all only: of_int_le_iff pow2_nonneg)
  also have "\<dots> \<le> of_int (2 ^ 53 - 1) * pow2 971"
    using pow2_mono [OF e] by (intro mult_left_mono) simp_all
  finally show ?thesis by (simp only: f64_max_pow2)
qed

lemma round_ge:
  assumes "is_f64 l" and "l \<le> x"
  shows "np_le (Fin l) (f64_round x)"
  using f64_round_mono [OF assms(2)] assms(1) by (simp add: is_f64_def)

lemma round_le:
  assumes "is_f64 h" and "x \<le> h"
  shows "np_le (f64_round x) (Fin h)"
  using f64_round_mono [OF assms(2)] assms(1) by (simp add: is_f64_def)

lemma round_between:
  assumes "is_f64 l" and "is_f64 h" and "l \<le> x" and "x \<le> h"
  obtains r where "f64_round x = Fin r" "l \<le> r" "r \<le> h" "is_f64 r"
proof -
  from round_ge [OF assms(1,3)] round_le [OF assms(2,4)]
  obtain r where r: "f64_round x = Fin r" "l \<le> r" "r \<le> h"
    by (cases "f64_round x") simp_all
  from is_f64_round [OF r(1)] r show ?thesis by (rule that [rotated -1])
qed


lemma f64_result_simps [simp]:
  "f64_result (Fin x) = f64_round x" "f64_result PInf = PInf"
  "f64_result NInf = NInf" "f64_result NaN = NaN"
  by (simp_all add: f64_result_def)

lemma f64_ops_Fin:
  "f64_add (Fin x) (Fin y) = f64_round (x + y)"
  "f64_sub (Fin x) (Fin y) = f64_round (x - y)"
  "f64_mul (Fin x) (Fin y) = f64_round (x * y)"
  "y \<noteq> 0 \<Longrightarrow> f64_divide (Fin x) (Fin y) = f64_round (x / y)"
  by (simp_all add: f64_add_def f64_sub_def f64_mul_def f64_divide_def minus_npfloat_def)

lemma np_le_Fin_cases:
  assumes "np_le (Fin l) x"
  obtains r where "x = Fin r" "l \<le> r" | "x = PInf"
  using assms by (cases x) simp_all

lemma f64_add_ge:
  assumes "is_f64 l" and "np_le (Fin l1) x" and "np_le (Fin l2) y" and "l \<le> l1 + l2"
  shows "np_le (Fin l) (f64_add x y)"
proof -
  from assms(2) show ?thesis
  proof (cases rule: np_le_Fin_cases)
    case (1 r)
    note x = this
    from assms(3) show ?thesis
    proof (cases rule: np_le_Fin_cases)
      case (1 r')
      have "l \<le> r + r'" using x(2) 1(2) assms(4) by linarith
      from round_ge [OF assms(1) this] show ?thesis by (simp add: x(1) 1(1) f64_ops_Fin)
    next
      case 2
      then show ?thesis by (simp add: x(1) f64_add_def)
    qed
  next
    case 2
    note x = this
    from assms(3) show ?thesis
      by (cases rule: np_le_Fin_cases) (simp_all add: x f64_add_def)
  qed
qed

lemma f64_sub_ge:
  assumes "is_f64 l" and "np_le (Fin l1) x" and "l \<le> l1 - c"
  shows "np_le (Fin l) (f64_sub x (Fin c))"
proof -
  from assms(2) show ?thesis
  proof (cases rule: np_le_Fin_cases)
    case (1 r)
    have "l \<le> r - c" using 1(2) assms(3) by linarith
    from round_ge [OF assms(1) this] show ?thesis by (simp add: 1(1) f64_ops_Fin)
  next
    case 2
    then show ?thesis by (simp add: f64_sub_def minus_npfloat_def)
  qed
qed

lemma is_f64_small_ints [simp]: "is_f64 1" "is_f64 2"
  using is_f64_int [of 1] is_f64_int [of 2] by simp_all

lemma f64_of_int_exact: "\<bar>i\<bar> < 2 ^ 53 \<Longrightarrow> f64_of_int i = Fin (of_int i)"
  using is_f64_int [of i] by (simp add: f64_of_int_def is_f64_def)

lemma f64_of_int_small [simp]: "f64_of_int 1 = Fin 1" "f64_of_int 2 = Fin 2"
  using f64_of_int_exact [of 1] f64_of_int_exact [of 2] by simp_all

lemma f64_of_int_ge: "2 \<le> t \<Longrightarrow> np_le (Fin 2) (f64_of_int t)"
  unfolding f64_of_int_def by (rule round_ge) simp_all

text \<open>The divisors of the recursion are never zero for positive arguments.\<close>

lemma base_divisor_ge:
  assumes "is_f64 a" and "is_f64 b" and "0 < a" and "0 < b"
  shows "np_le (Fin a) (f64_add (Fin a) (Fin b))" and "np_le (Fin b) (f64_add (Fin a) (Fin b))"
  using round_ge [OF assms(1), of "a + b"] round_ge [OF assms(2), of "a + b"] assms(3,4)
  by (simp_all add: f64_ops_Fin)

lemma step_divisor_ge:
  assumes "is_f64 a" and "is_f64 b" and "0 < a" and "0 < b" and "2 \<le> t"
  shows "np_le (Fin 1)
           (f64_sub (f64_add (f64_add (Fin a) (Fin b)) (f64_of_int t)) (Fin 1))"
proof -
  have d0: "np_le (Fin 0) (f64_add (Fin a) (Fin b))"
    using round_ge [OF is_f64_0, of "a + b"] assms(3,4) by (simp add: f64_ops_Fin)
  have "np_le (Fin 2) (f64_add (f64_add (Fin a) (Fin b)) (f64_of_int t))"
    by (rule f64_add_ge [OF _ d0 f64_of_int_ge [OF assms(5)]]) simp_all
  then show ?thesis by (rule f64_sub_ge [rotated]) simp_all
qed


lemma round_max_plus: "f64_round (f64_max + 2 ^ 53) = Fin f64_max"
proof -
  define x :: real where "x = f64_max + 2 ^ 53"
  let ?d = "pow2 (- 918)"
  have p53: "(2 :: real) ^ 53 = pow2 53" using pow2_nat [of 53] by simp
  have p52: "(2 :: real) ^ 52 = pow2 52" using pow2_nat [of 52] by simp
  have d1: "?d < 1 / 2"
  proof -
    have "pow2 (- 918) \<le> pow2 (- 2)" by (rule pow2_mono) simp
    also have "pow2 (- 2) < 1 / 2" by (simp add: pow2_def powr_minus_divide)
    finally show ?thesis .
  qed
  have d0: "0 \<le> ?d" by simp
  have split53: "pow2 53 = ?d * pow2 971" by (simp add: pow2_add [symmetric])
  have x: "x = (of_int (2 ^ 53 - 1) + ?d) * pow2 971"
    unfolding x_def f64_max_pow2 p53 split53 by (simp add: algebra_simps)
  have lo: "pow2 (971 + 52) \<le> x"
  proof -
    have "pow2 (971 + 52) = 2 ^ 52 * pow2 971"
      unfolding p52 using pow2_add [of 52 971] by simp
    also have "\<dots> \<le> of_int (2 ^ 53 - 1) * pow2 971"
      by (intro mult_right_mono) simp_all
    also have "\<dots> \<le> x" unfolding x_def f64_max_pow2 by simp
    finally show ?thesis .
  qed
  have hi: "x < pow2 (971 + 53)"
  proof -
    have "of_int (2 ^ 53 - 1) + ?d < (2 :: real) ^ 53" using d1 by simp
    then have "x < 2 ^ 53 * pow2 971"
      unfolding x by (intro mult_strict_right_mono) simp_all
    also have "\<dots> = pow2 (971 + 53)"
      unfolding p53 using pow2_add [of 53 971] by simp
    finally show ?thesis .
  qed
  have "f64_nearest x = of_int (2 ^ 53 - 1) * pow2 971"
    by (rule nearest_down [OF lo hi _ x d0 d1]) simp
  then have n: "f64_nearest x = f64_max" by (simp only: f64_max_pow2)
  have pos: "0 < x" using lo pow2_pos [of "971 + 52"] by linarith
  have "f64_round x = Fin f64_max"
    using pos f64_max_less_limit by (simp add: f64_round_def f64_round_pos_def n)
  then show ?thesis unfolding x_def .
qed

lemma add_index_finite:
  assumes "is_f64 b" and "0 < b" and "2 \<le> t" and "t \<le> 2 ^ 53"
  obtains u where "f64_round (b + t) = Fin u" "2 \<le> u"
proof -
  have lo: "np_le (Fin 2) (f64_round (b + t))"
    by (rule round_ge) (use assms in simp_all)
  have "b + t \<le> f64_max + 2 ^ 53" using is_f64_le_max [OF assms(1,2)] assms(4) by linarith
  from f64_round_mono [OF this] have hi: "np_le (f64_round (b + t)) (Fin f64_max)"
    by (simp only: round_max_plus)
  from lo hi obtain u where u: "f64_round (b + t) = Fin u"
    by (cases "f64_round (b + t)") simp_all
  with lo have "2 \<le> u" by simp
  with u show ?thesis by (rule that)
qed

lemma f64_unit_quotient:
  assumes "0 \<le> x" and "np_le (Fin x) y" and "np_le (Fin 1) y"
  obtains q where "f64_divide (Fin x) y = Fin q" "0 \<le> q" "q \<le> 1" "is_f64 q"
proof -
  from assms(2) show ?thesis
  proof (cases rule: np_le_Fin_cases)
    case (1 d)
    from assms(3) 1(1) have d: "1 \<le> d" by simp
    then have "0 \<le> x / d" "x / d \<le> 1" using assms(1) 1(2) by simp_all
    from round_between [OF is_f64_0 is_f64_small_ints(1) this]
    obtain r where "f64_round (x / d) = Fin r" "0 \<le> r" "r \<le> 1" "is_f64 r" by blast
    then show ?thesis using d by (intro that [of r]) (simp_all add: 1(1) f64_ops_Fin)
  next
    case 2
    show ?thesis by (rule that [of 0]) (simp_all add: 2 f64_divide_def f64_round_def)
  qed
qed

lemma base_ratio_bounds:
  assumes "is_f64 a" and "is_f64 b" and "0 < a" and "0 < b"
  obtains p where "f64_divide (Fin a) (f64_add (Fin a) (Fin b)) = Fin p"
    "0 \<le> p" "p \<le> 1" "is_f64 p"
proof -
  have ge: "np_le (Fin a) (f64_add (Fin a) (Fin b))"
    by (rule base_divisor_ge [OF assms])
  have "np_le (Fin 0) (Fin a)" using assms(3) by simp
  have one: "np_le (Fin 1) (f64_add (Fin a) (Fin b)) \<or> f64_add (Fin a) (Fin b) \<noteq> PInf"
    by (cases "f64_add (Fin a) (Fin b)") simp_all
  from ge show ?thesis
  proof (cases rule: np_le_Fin_cases)
    case (1 d)
    have d: "0 < d" using 1(2) assms(3) by linarith
    then have "0 \<le> a / d" "a / d \<le> 1" using assms(3) 1(2) by simp_all
    from round_between [OF is_f64_0 is_f64_small_ints(1) this]
    obtain r where r: "f64_round (a / d) = Fin r" "0 \<le> r" "r \<le> 1" "is_f64 r" by blast
    have "f64_divide (Fin a) (f64_add (Fin a) (Fin b)) = Fin r"
      unfolding 1(1) using d r(1) by (simp add: f64_ops_Fin)
    then show ?thesis using r(2,3,4) by (rule that)
  next
    case 2
    have "f64_divide (Fin a) (f64_add (Fin a) (Fin b)) = Fin 0"
      unfolding 2 by (simp add: f64_divide_def f64_round_def)
    then show ?thesis by (rule that) simp_all
  qed
qed

lemma step_ratio_bounds:
  assumes "is_f64 a" and "is_f64 b" and "0 < a" and "0 < b" and "2 \<le> t" and "t < 2 ^ 53"
  obtains q where
    "f64_divide (f64_sub (f64_add (Fin b) (f64_of_int t)) (Fin 2))
       (f64_sub (f64_add (f64_add (Fin a) (Fin b)) (f64_of_int t)) (Fin 1)) = Fin q"
    "0 \<le> q" "q \<le> 1" "is_f64 q"
proof -
  have T: "f64_of_int t = Fin (of_int t)" using assms(5,6) by (intro f64_of_int_exact) simp
  have t2: "2 \<le> real_of_int t" "real_of_int t \<le> 2 ^ 53"
  proof -
    show "2 \<le> real_of_int t" using assms(5) by simp
    have "real_of_int t \<le> real_of_int (2 ^ 53)" using assms(6) by (simp only: of_int_le_iff)
    then show "real_of_int t \<le> 2 ^ 53" by simp
  qed
  from add_index_finite [OF assms(2,4) t2] obtain u where
    u: "f64_round (b + of_int t) = Fin u" "2 \<le> u" by blast
  have isu: "is_f64 u" by (rule is_f64_round [OF u(1)])
  have "0 \<le> u - 2" "u - 2 \<le> u" using u(2) by simp_all
  from round_between [OF is_f64_0 isu this] obtain num where
    num: "f64_round (u - 2) = Fin num" "0 \<le> num" by blast
  let ?v = "f64_add (f64_add (Fin a) (Fin b)) (Fin (of_int t))"
  have v: "np_le (Fin u) ?v"
    using base_divisor_ge(2) [OF assms(1,2,3,4)]
  proof (cases rule: np_le_Fin_cases)
    case (1 d)
    have "b + of_int t \<le> d + of_int t" using 1(2) by simp
    from f64_round_mono [OF this] show ?thesis
      unfolding 1(1) by (simp add: u(1) f64_ops_Fin)
  next
    case 2
    show ?thesis unfolding 2 by (simp add: f64_add_def)
  qed
  let ?den = "f64_sub ?v (Fin 1)"
  have den: "np_le (Fin num) ?den \<and> np_le (Fin 1) ?den"
    using v
  proof (cases rule: np_le_Fin_cases)
    case (1 w)
    have "u - 2 \<le> w - 1" using 1(2) by simp
    from f64_round_mono [OF this] have a: "np_le (Fin num) (f64_round (w - 1))"
      by (simp only: num(1))
    have "1 \<le> w - 1" using 1(2) u(2) by simp
    from round_ge [OF is_f64_small_ints(1) this] a show ?thesis
      unfolding 1(1) by (simp add: f64_ops_Fin)
  next
    case 2
    show ?thesis unfolding 2 by (simp add: f64_sub_def minus_npfloat_def)
  qed
  from f64_unit_quotient [OF num(2) den [THEN conjunct1] den [THEN conjunct2]]
  obtain q where "f64_divide (Fin num) ?den = Fin q" "0 \<le> q" "q \<le> 1" "is_f64 q" by blast
  then show ?thesis
    by (intro that [of q]) (simp_all add: T f64_ops_Fin u(1) num(1))
qed

lemma f64_mul_unit:
  assumes "is_f64 p" and "0 \<le> p" and "0 \<le> q" and "q \<le> 1"
  obtains r where "f64_mul (Fin q) (Fin p) = Fin r" "0 \<le> r" "r \<le> p" "is_f64 r"
proof -
  have "0 \<le> q * p" "q * p \<le> p"
    using assms(2,3,4) by (simp_all add: mult_left_le_one_le)
  from round_between [OF is_f64_0 assms(1) this]
  obtain r where r: "f64_round (q * p) = Fin r" "0 \<le> r" "r \<le> p" "is_f64 r" by blast
  have "f64_mul (Fin q) (Fin p) = Fin r" using r(1) by (simp add: f64_ops_Fin)
  then show ?thesis using r(2,3,4) by (rule that)
qed

lemma f64_sub_down:
  assumes "is_f64 s" and "is_f64 l" and "0 \<le> r" and "l \<le> s - r"
  obtains s' where "f64_sub (Fin s) (Fin r) = Fin s'" "l \<le> s'" "s' \<le> s" "is_f64 s'"
proof -
  have "s - r \<le> s" using assms(3) by simp
  from round_between [OF assms(2,1,4) this]
  obtain s' where s': "f64_round (s - r) = Fin s'" "l \<le> s'" "s' \<le> s" "is_f64 s'" by blast
  have "f64_sub (Fin s) (Fin r) = Fin s'" using s'(1) by (simp add: f64_ops_Fin)
  then show ?thesis using s'(2,3,4) by (rule that)
qed


lemma f64_arith_ops:
  assumes "ar = numpy_f64 \<or> ar = python_f64"
  shows "f_add ar = f64_add" and "f_sub ar = f64_sub" and "f_mul ar = f64_mul"
    and "f_of_int ar = f64_of_int"
    and "y \<noteq> Fin 0 \<Longrightarrow> f_div ar x y = Inr (f64_divide x y)"
  using assms by (auto simp: numpy_f64_def python_f64_def)

lemma np_le_Fin_neq_0: "np_le (Fin l) x \<Longrightarrow> 0 < l \<Longrightarrow> x \<noteq> Fin 0"
  by (cases x) auto

lemma f64_base_ratio:
  assumes "ar = numpy_f64 \<or> ar = python_f64"
    and "is_f64 a" and "is_f64 b" and "0 < a" and "0 < b"
  shows "base_ratio ar (Fin a) (Fin b) = Inr (f64_divide (Fin a) (f64_add (Fin a) (Fin b)))"
proof -
  have "f64_add (Fin a) (Fin b) \<noteq> Fin 0"
    by (rule np_le_Fin_neq_0 [OF base_divisor_ge(1) [OF assms(2,3,4,5)] assms(4)])
  then show ?thesis
    by (simp add: base_ratio_def f64_arith_ops [OF assms(1)])
qed

lemma f64_step_ratio:
  assumes "ar = numpy_f64 \<or> ar = python_f64"
    and "is_f64 a" and "is_f64 b" and "0 < a" and "0 < b" and "2 \<le> t"
  shows "step_ratio ar (Fin a) (Fin b) t =
     Inr (f64_divide (f64_sub (f64_add (Fin b) (f64_of_int t)) (Fin 2))
            (f64_sub (f64_add (f64_add (Fin a) (Fin b)) (f64_of_int t)) (Fin 1)))"
proof -
  have "f64_sub (f64_add (f64_add (Fin a) (Fin b)) (f64_of_int t)) (Fin 1) \<noteq> Fin 0"
    by (rule np_le_Fin_neq_0 [OF step_divisor_ge [OF assms(2,3,4,5,6)]]) simp
  then show ?thesis
    by (simp add: step_ratio_def f64_arith_ops [OF assms(1)])
qed

lemma f64_no_division_raises:
  assumes "ar = numpy_f64 \<or> ar = python_f64"
    and "is_f64 a" and "is_f64 b" and "0 < a" and "0 < b"
  shows "no_division_raises ar (Fin a) (Fin b) n"
  unfolding no_division_raises_iff
  by (simp add: f64_base_ratio [OF assms] f64_step_ratio [OF assms])

lemma f64_rrs_result:
  assumes "ar = numpy_f64 \<or> ar = python_f64"
    and "is_f64 a" and "is_f64 b" and "0 < a" and "0 < b"
  shows "\<exists>P S. recursive_retention_stats ar (Fin a) (Fin b) n = Inr (P, S) \<and>
      length P = nat (max 2 n) \<and> length S = nat (max 2 n) \<and>
      P ! 0 = None \<and> S ! 0 = None \<and>
      P ! 1 = Some (f64_divide (Fin a) (f64_add (Fin a) (Fin b))) \<and>
      S ! 1 = Some (f64_sub (Fin 1) (f64_divide (Fin a) (f64_add (Fin a) (Fin b)))) \<and>
      (\<forall>t. 2 \<le> t \<and> t < n \<longrightarrow>
         (\<exists>p' s' p. P ! nat (t - 1) = Some p' \<and> S ! nat (t - 1) = Some s' \<and>
            p = f64_mul
                  (f64_divide (f64_sub (f64_add (Fin b) (f64_of_int t)) (Fin 2))
                     (f64_sub (f64_add (f64_add (Fin a) (Fin b)) (f64_of_int t)) (Fin 1)))
                  p' \<and>
            P ! nat t = Some p \<and> S ! nat t = Some (f64_sub s' p)))"
proof -
  from rrs_returns [OF f64_no_division_raises [OF assms], of n]
  obtain P S p1 where
    res: "recursive_retention_stats ar (Fin a) (Fin b) n = Inr (P, S)" and
    p1: "base_ratio ar (Fin a) (Fin b) = Inr p1" and
    len: "length P = nat (max 2 n)" "length S = nat (max 2 n)" and
    tk: "take 2 P = [None, Some p1]" "take 2 S = [None, Some (f_sub ar (f_of_int ar 1) p1)]" and
    rec: "\<forall>k. 2 \<le> k \<and> k < n \<longrightarrow>
         (\<exists>p' s' q. P ! nat (k - 1) = Some p' \<and> S ! nat (k - 1) = Some s' \<and>
            step_ratio ar (Fin a) (Fin b) k = Inr q \<and>
            P ! nat k = Some (f_mul ar q p') \<and> S ! nat k = Some (f_sub ar s' (f_mul ar q p')))"
    by blast
  have p1': "p1 = f64_divide (Fin a) (f64_add (Fin a) (Fin b))"
    using p1 by (simp add: f64_base_ratio [OF assms])
  have "P ! 0 = take 2 P ! 0" "S ! 0 = take 2 S ! 0" "P ! 1 = take 2 P ! 1" "S ! 1 = take 2 S ! 1"
    by simp_all
  then have first: "P ! 0 = None" "S ! 0 = None" "P ! 1 = Some p1"
    "S ! 1 = Some (f64_sub (Fin 1) p1)"
    unfolding tk by (simp_all add: f64_arith_ops [OF assms(1)])
  have "\<exists>p' s' p. P ! nat (t - 1) = Some p' \<and> S ! nat (t - 1) = Some s' \<and>
            p = f64_mul
                  (f64_divide (f64_sub (f64_add (Fin b) (f64_of_int t)) (Fin 2))
                     (f64_sub (f64_add (f64_add (Fin a) (Fin b)) (f64_of_int t)) (Fin 1)))
                  p' \<and>
            P ! nat t = Some p \<and> S ! nat t = Some (f64_sub s' p)"
    if t: "2 \<le> t \<and> t < n" for t
  proof -
    from rec t obtain p' s' q where
      "P ! nat (t - 1) = Some p'" "S ! nat (t - 1) = Some s'"
      "step_ratio ar (Fin a) (Fin b) t = Inr q"
      "P ! nat t = Some (f_mul ar q p')" "S ! nat t = Some (f_sub ar s' (f_mul ar q p'))"
      by blast
    then show ?thesis
      using t by (simp add: f64_step_ratio [OF assms] f64_arith_ops [OF assms(1)])
  qed
  with res len first show ?thesis unfolding p1' by blast
qed

lemma f64_rrs_bounds:
  assumes ar: "ar = numpy_f64 \<or> ar = python_f64"
    and a: "is_f64 a" and b: "is_f64 b" and a0: "0 < a" and b0: "0 < b"
    and n: "n \<le> 2 ^ 53"
    and res: "recursive_retention_stats ar (Fin a) (Fin b) n = Inr (P, S)"
    and k: "1 \<le> k" "k < n"
  shows "\<exists>p s. P ! nat k = Some (Fin p) \<and> S ! nat k = Some (Fin s) \<and>
      is_f64 p \<and> is_f64 s \<and> 0 \<le> p \<and> p \<le> 1 \<and> 1 - of_int k \<le> s \<and> s \<le> 1 \<and>
      (2 \<le> k \<longrightarrow>
         (\<exists>p' s'. P ! nat (k - 1) = Some (Fin p') \<and> S ! nat (k - 1) = Some (Fin s') \<and>
            p \<le> p' \<and> s \<le> s'))"
proof -
  from f64_rrs_result [OF ar a b a0 b0, of n] res have
    one: "P ! 1 = Some (f64_divide (Fin a) (f64_add (Fin a) (Fin b)))"
         "S ! 1 = Some (f64_sub (Fin 1) (f64_divide (Fin a) (f64_add (Fin a) (Fin b))))" and
    rec: "\<forall>t. 2 \<le> t \<and> t < n \<longrightarrow>
         (\<exists>p' s' p. P ! nat (t - 1) = Some p' \<and> S ! nat (t - 1) = Some s' \<and>
            p = f64_mul
                  (f64_divide (f64_sub (f64_add (Fin b) (f64_of_int t)) (Fin 2))
                     (f64_sub (f64_add (f64_add (Fin a) (Fin b)) (f64_of_int t)) (Fin 1)))
                  p' \<and>
            P ! nat t = Some p \<and> S ! nat t = Some (f64_sub s' p))"
    by auto
  from k show ?thesis
  proof (induction k rule: int_ge_induct)
    case base
    from base_ratio_bounds [OF a b a0 b0] obtain p where
      p: "f64_divide (Fin a) (f64_add (Fin a) (Fin b)) = Fin p" "0 \<le> p" "p \<le> 1" "is_f64 p"
      by blast
    have "(0::real) \<le> 1 - p" using p(3) by simp
    from f64_sub_down [OF is_f64_small_ints(1) is_f64_0 p(2) this] obtain s where
      s: "f64_sub (Fin 1) (Fin p) = Fin s" "0 \<le> s" "s \<le> 1" "is_f64 s" by blast
    show ?case using one p s by simp
  next
    case (step k)
    let ?t = "k + 1"
    have t: "2 \<le> ?t \<and> ?t < n" using step.hyps step.prems by simp
    then have t53: "?t < 2 ^ 53" using n by linarith
    from step.IH t obtain p s where
      ih: "P ! nat k = Some (Fin p)" "S ! nat k = Some (Fin s)" "is_f64 p" "is_f64 s"
          "0 \<le> p" "p \<le> 1" "1 - of_int k \<le> s" "s \<le> 1"
      by auto
    from step_ratio_bounds [OF a b a0 b0 t [THEN conjunct1] t53] obtain q where
      q: "f64_divide (f64_sub (f64_add (Fin b) (f64_of_int ?t)) (Fin 2))
            (f64_sub (f64_add (f64_add (Fin a) (Fin b)) (f64_of_int ?t)) (Fin 1)) = Fin q"
         "0 \<le> q" "q \<le> 1" "is_f64 q"
      by blast
    from f64_mul_unit [OF ih(3,5) q(2,3)] obtain r where
      r: "f64_mul (Fin q) (Fin p) = Fin r" "0 \<le> r" "r \<le> p" "is_f64 r" by blast
    have "\<bar>- k\<bar> < 2 ^ 53" using step.hyps t53 by simp
    from is_f64_int [OF this] have l: "is_f64 (- of_int k)" by simp
    have "- of_int k \<le> s - r" using ih(6,7) r(3) by simp
    from f64_sub_down [OF ih(4) l r(2) this] obtain s' where
      s': "f64_sub (Fin s) (Fin r) = Fin s'" "- of_int k \<le> s'" "s' \<le> s" "is_f64 s'" by blast
    from rec t have
      "\<exists>p' s' p. P ! nat (?t - 1) = Some p' \<and> S ! nat (?t - 1) = Some s' \<and>
            p = f64_mul
                  (f64_divide (f64_sub (f64_add (Fin b) (f64_of_int ?t)) (Fin 2))
                     (f64_sub (f64_add (f64_add (Fin a) (Fin b)) (f64_of_int ?t)) (Fin 1)))
                  p' \<and>
            P ! nat ?t = Some p \<and> S ! nat ?t = Some (f64_sub s' p)"
      by blast
    then have new: "P ! nat ?t = Some (Fin r)" "S ! nat ?t = Some (Fin s')"
      unfolding q(1) by (simp_all add: ih(1,2) r(1) s'(1))
    have "r \<le> 1" using r(3) ih(6) by simp
    moreover have "s' \<le> 1" using s'(3) ih(8) by simp
    ultimately show ?case
      using new ih r s' by simp
  qed
qed


lemma is_f64_exact: "is_f64 x \<Longrightarrow> f64_round x = Fin x"
  by (simp add: is_f64_def)

lemma is_f64_dyadic_quotient:
  assumes "0 < k" and "k < 2 ^ 53" and "n \<le> 1074"
  shows "is_f64 (of_int k / 2 ^ n)"
proof -
  have eq: "of_int k / 2 ^ n = of_int k * pow2 (- int n)"
    by (simp add: pow2_def powr_minus_divide powr_realpow)
  have "real_of_int k < real_of_int (2 ^ 53)" using assms(2) by (simp only: of_int_less_iff)
  then have k: "real_of_int k < 2 ^ 53" by simp
  have "pow2 (- int n) \<le> pow2 0" by (rule pow2_mono) simp
  then have "pow2 (- int n) \<le> 1" by (simp add: pow2_def)
  then have "of_int k * pow2 (- int n) \<le> of_int k * 1"
    using assms(1) by (intro mult_left_mono) simp_all
  with k have "of_int k * pow2 (- int n) < 2 ^ 53" by simp
  then have "of_int k * pow2 (- int n) < f64_limit" by (rule small_less_limit)
  from is_f64_dyadic [OF assms(1,2) _ this] assms(3) show ?thesis unfolding eq by simp
qed

lemma big_alpha_pow2: "big_alpha = pow2 60"
  using pow2_nat [of 60] by (simp add: big_alpha_def)

lemma big_alpha_pos [simp]: "0 < big_alpha" "big_alpha \<noteq> 0"
  by (simp_all add: big_alpha_pow2)

lemma big_alpha_less_limit: "big_alpha < f64_limit"
  by (simp add: big_alpha_pow2 f64_limit_pow2 pow2_def)

lemma round_big_alpha_plus:
  assumes "0 \<le> c" and "c \<le> 2"
  shows "f64_round (big_alpha + c) = Fin big_alpha"
proof -
  let ?d = "c * pow2 (- 8)"
  have p8: "pow2 (- 8) = 1 / 256" by (simp add: pow2_def powr_minus_divide)
  have p52: "(2 :: real) ^ 52 = pow2 52" using pow2_nat [of 52] by simp
  have a: "big_alpha = of_int (2 ^ 52) * pow2 8"
    unfolding big_alpha_pow2 using pow2_add [of 52 8] p52 by simp
  have c: "c = ?d * pow2 8" using pow2_add [of "- 8" 8] by (simp add: pow2_def)
  have x: "big_alpha + c = (of_int (2 ^ 52) + ?d) * pow2 8"
    using a c by (simp add: algebra_simps)
  have d0: "0 \<le> ?d" using assms(1) by simp
  have d1: "?d < 1 / 2" using assms(2) unfolding p8 by simp
  have lo: "pow2 (8 + 52) \<le> big_alpha + c" using assms(1) by (simp add: big_alpha_pow2)
  have "c < pow2 60"
  proof -
    have "c < pow2 2" using assms(2) by (simp add: pow2_def)
    also have "pow2 2 \<le> pow2 60" by (rule pow2_mono) simp
    finally show ?thesis .
  qed
  then have hi: "big_alpha + c < pow2 (8 + 53)"
    using pow2_add [of 60 1] by (simp add: big_alpha_pow2 pow2_def)
  have "f64_nearest (big_alpha + c) = of_int (2 ^ 52) * pow2 8"
    by (rule nearest_down [OF lo hi _ x d0 d1]) simp
  then have n: "f64_nearest (big_alpha + c) = big_alpha" by (simp only: a)
  have pos: "0 < big_alpha + c" using assms(1) big_alpha_pos(1) by linarith
  show ?thesis
    using pos big_alpha_less_limit by (simp add: f64_round_def f64_round_pos_def n)
qed


lemma round_big_alpha_minus: "f64_round (big_alpha - 1) = Fin big_alpha"
proof -
  let ?d = "127 / 128 :: real"
  have p7: "pow2 7 = 128" using pow2_nat [of 7] by simp
  have p53: "(2 :: real) ^ 53 = pow2 53" using pow2_nat [of 53] by simp
  have a: "big_alpha = 2 ^ 53 * pow2 7"
    unfolding big_alpha_pow2 p53 using pow2_add [of 53 7] by simp
  have x: "big_alpha - 1 = (of_int (2 ^ 53 - 1) + ?d) * pow2 7"
    unfolding a p7 by simp
  have one: "(1 :: real) \<le> pow2 59" using pow2_mono [of 0 59] by (simp add: pow2_def)
  have dbl: "pow2 60 = 2 * pow2 59" using pow2_add [of 1 59] by (simp add: pow2_def)
  have lo: "pow2 (7 + 52) \<le> big_alpha - 1"
    unfolding big_alpha_pow2 using one dbl by simp
  have hi: "big_alpha - 1 < pow2 (7 + 53)" by (simp add: big_alpha_pow2)
  have "f64_nearest (big_alpha - 1) = of_int (2 ^ 53 - 1 + 1) * pow2 7"
    by (rule nearest_up [OF lo hi _ x]) simp_all
  then have n: "f64_nearest (big_alpha - 1) = big_alpha" by (simp add: a)
  have pos: "0 < big_alpha - 1" using lo pow2_pos [of "7 + 52"] by linarith
  show ?thesis
    using pos big_alpha_less_limit by (simp add: f64_round_def f64_round_pos_def n)
qed

lemma is_f64_inverse_big_alpha: "is_f64 (1 / big_alpha)" "is_f64 (- (1 / big_alpha))"
proof -
  show "is_f64 (1 / big_alpha)"
    using is_f64_dyadic_quotient [of 1 60] by (simp add: big_alpha_def)
  then show "is_f64 (- (1 / big_alpha))" by (rule is_f64_uminus)
qed

lemma is_f64_3 [simp]: "is_f64 3"
  using is_f64_int [of 3] by simp

lemma big_alpha_base_ratio: "base_ratio numpy_f64 (Fin big_alpha) (Fin 1) = Inr (Fin 1)"
  by (simp add: base_ratio_def numpy_f64_def f64_ops_Fin round_big_alpha_plus is_f64_exact)

lemma big_alpha_step_ratio:
  "step_ratio numpy_f64 (Fin big_alpha) (Fin 1) 2 = Inr (Fin (1 / big_alpha))"
  by (simp add: step_ratio_def numpy_f64_def f64_ops_Fin round_big_alpha_plus
        round_big_alpha_minus is_f64_exact is_f64_inverse_big_alpha)

lemma big_alpha_result:
  "recursive_retention_stats numpy_f64 (Fin big_alpha) (Fin 1) 3 =
     Inr ([None, Some (Fin 1), Some (Fin (1 / big_alpha))],
          [None, Some (Fin 0), Some (Fin (- (1 / big_alpha)))])"
proof -
  have s1: "f_sub numpy_f64 (f_of_int numpy_f64 1) (Fin 1) = Fin 0"
    by (simp add: numpy_f64_def f64_ops_Fin is_f64_exact)
  have p2: "f_mul numpy_f64 (Fin (1 / big_alpha)) (Fin 1) = Fin (1 / big_alpha)"
    by (simp add: numpy_f64_def f64_ops_Fin is_f64_exact is_f64_inverse_big_alpha)
  have s2: "f_sub numpy_f64 (Fin 0) (Fin (1 / big_alpha)) = Fin (- (1 / big_alpha))"
    by (simp add: numpy_f64_def f64_ops_Fin is_f64_exact is_f64_inverse_big_alpha)
  have "rrs_loop numpy_f64 (Fin big_alpha) (Fin 1) 3 2 [None, Some (Fin 1)] [None, Some (Fin 0)] =
        rrs_loop numpy_f64 (Fin big_alpha) (Fin 1) 3 (2 + 1)
          ([None, Some (Fin 1)] @ [Some (f_mul numpy_f64 (Fin (1 / big_alpha)) (Fin 1))])
          ([None, Some (Fin 0)] @
           [Some (f_sub numpy_f64 (Fin 0) (f_mul numpy_f64 (Fin (1 / big_alpha)) (Fin 1)))])"
    by (rule rrs_loop_step [OF _ _ _ _ _ _ big_alpha_step_ratio]) simp_all
  also have "\<dots> = Inr ([None, Some (Fin 1), Some (Fin (1 / big_alpha))],
          [None, Some (Fin 0), Some (Fin (- (1 / big_alpha)))])"
    unfolding p2 s2 by (simp add: rrs_loop_stop)
  finally show ?thesis
    by (simp add: recursive_retention_stats_def big_alpha_base_ratio s1 Let_def)
qed

subsection \<open>The recursion in float64\<close>

lemma rrs_loop_Inl_division:
  assumes "2 \<le> t" "length p = nat t" "length s = nat t"
    and "\<forall>k. 1 \<le> k \<and> k < nat t \<longrightarrow> p ! k \<noteq> None \<and> s ! k \<noteq> None"
    and "rrs_loop ar alpha beta n t p s = Inl e"
  shows "\<exists>k. t \<le> k \<and> k < n \<and> step_ratio ar alpha beta k = Inl e"
  using assms
proof (induction "nat (n - t)" arbitrary: t p s)
  case 0
  then have "\<not> t < n" by simp
  from rrs_loop_stop [OF this] 0 show ?case by simp
next
  case (Suc d)
  then have lt: "t < n" by linarith
  show ?case
  proof (cases "step_ratio ar alpha beta t")
    case (Inl e')
    from rrs_loop_raise [OF lt Inl] Suc.prems(5) have "e' = e" by simp
    with Inl lt show ?thesis by auto
  next
    case (Inr q)
    have idx: "1 \<le> nat (t - 1) \<and> nat (t - 1) < nat t" using Suc.prems(1) by linarith
    with Suc.prems(4) obtain pp sp where
      pp: "p ! nat (t - 1) = Some pp" and sp: "s ! nat (t - 1) = Some sp"
      by (metis not_Some_eq)
    let ?p1 = "p @ [Some (f_mul ar q pp)]"
    let ?s1 = "s @ [Some (f_sub ar sp (f_mul ar q pp))]"
    have step: "rrs_loop ar alpha beta n t p s = rrs_loop ar alpha beta n (t + 1) ?p1 ?s1"
      by (rule rrs_loop_step [OF lt Suc.prems(1) Suc.prems(2) Suc.prems(3) pp sp Inr])
    have d: "d = nat (n - (t + 1))" using Suc.hyps(2) by linarith
    have l1: "length ?p1 = nat (t + 1)" "length ?s1 = nat (t + 1)"
      using Suc.prems(1,2,3) by (simp_all add: nat_add_distrib)
    have some1: "\<forall>k. 1 \<le> k \<and> k < nat (t + 1) \<longrightarrow> ?p1 ! k \<noteq> None \<and> ?s1 ! k \<noteq> None"
      using Suc.prems by (auto simp: nth_append)
    have t1: "2 \<le> t + 1" using Suc.prems(1) by simp
    have res: "rrs_loop ar alpha beta n (t + 1) ?p1 ?s1 = Inl e"
      using step Suc.prems(5) by simp
    from Suc.hyps(1) [OF d t1 l1 some1 res] obtain k where
      "t + 1 \<le> k \<and> k < n \<and> step_ratio ar alpha beta k = Inl e" by blast
    then have "t \<le> k \<and> k < n \<and> step_ratio ar alpha beta k = Inl e" by simp
    then show ?thesis by blast
  qed
qed

lemma rrs_Inl_division:
  assumes "recursive_retention_stats ar alpha beta n = Inl e"
  shows "base_ratio ar alpha beta = Inl e \<or>
         (\<exists>k. 2 \<le> k \<and> k < n \<and> step_ratio ar alpha beta k = Inl e)"
proof (cases "base_ratio ar alpha beta")
  case (Inl e')
  with assms show ?thesis by (simp add: recursive_retention_stats_def)
next
  case (Inr p1)
  let ?p = "[None, Some p1]"
  let ?s = "[None, Some (f_sub ar (f_of_int ar 1) p1)]"
  have some: "\<forall>k. 1 \<le> k \<and> k < nat 2 \<longrightarrow> ?p ! k \<noteq> None \<and> ?s ! k \<noteq> None"
    by (auto simp: less_Suc_eq numeral_2_eq_2)
  have res: "rrs_loop ar alpha beta n 2 ?p ?s = Inl e"
    using assms Inr by (simp add: recursive_retention_stats_def Let_def)
  have "\<exists>k. 2 \<le> k \<and> k < n \<and> step_ratio ar alpha beta k = Inl e"
    by (rule rrs_loop_Inl_division [OF _ _ _ some res]) simp_all
  then show ?thesis by blast
qed

lemma f64_division_error:
  assumes "ar = numpy_f64 \<or> ar = python_f64" and "f_div ar x y = Inl e"
  shows "ar = python_f64 \<and> e = ZeroDivisionError"
  using assms by (auto simp: numpy_f64_def python_f64_def split: if_splits)

lemma f64_division_value:
  assumes "ar = numpy_f64 \<or> ar = python_f64" and "f_div ar x y = Inr q"
  shows "q = f64_divide x y"
  using assms by (auto simp: numpy_f64_def python_f64_def split: if_splits)

lemma numpy_no_division_raises: "no_division_raises numpy_f64 alpha beta n"
  by (simp add: no_division_raises_iff base_ratio_def step_ratio_def numpy_f64_def)

lemma python_no_division_raises:
  "no_division_raises python_f64 alpha beta n \<longleftrightarrow>
     f64_add alpha beta \<noteq> Fin 0 \<and>
     (\<forall>t. 2 \<le> t \<and> t < n \<longrightarrow>
        f64_sub (f64_add (f64_add alpha beta) (f64_of_int t)) (Fin 1) \<noteq> Fin 0)"
  by (auto simp: no_division_raises_iff base_ratio_def step_ratio_def python_f64_def)

lemma f64_rrs_any:
  assumes "ar = numpy_f64 \<or> ar = python_f64"
  shows "if no_division_raises ar alpha beta n
         then \<exists>P S. recursive_retention_stats ar alpha beta n = Inr (P, S) \<and>
                length P = nat (max 2 n) \<and> length S = nat (max 2 n) \<and>
                take 2 P = [None, Some (f64_divide alpha (f64_add alpha beta))] \<and>
                take 2 S =
                  [None, Some (f64_sub (Fin 1) (f64_divide alpha (f64_add alpha beta)))]
         else ar = python_f64 \<and>
              recursive_retention_stats ar alpha beta n = Inl ZeroDivisionError"
proof (cases "no_division_raises ar alpha beta n")
  case True
  from rrs_returns [OF True] obtain P S p1 where
    res: "recursive_retention_stats ar alpha beta n = Inr (P, S)" and
    p1: "base_ratio ar alpha beta = Inr p1" and
    len: "length P = nat (max 2 n)" "length S = nat (max 2 n)" and
    tk: "take 2 P = [None, Some p1]" "take 2 S = [None, Some (f_sub ar (f_of_int ar 1) p1)]"
    by blast
  have "p1 = f64_divide alpha (f_add ar alpha beta)"
    using f64_division_value [OF assms] p1 unfolding base_ratio_def by blast
  then have p1': "p1 = f64_divide alpha (f64_add alpha beta)"
    by (simp add: f64_arith_ops [OF assms])
  have "f_sub ar (f_of_int ar 1) p1 = f64_sub (Fin 1) p1"
    by (simp add: f64_arith_ops [OF assms])
  with res len tk True show ?thesis unfolding p1' by simp
next
  case False
  obtain e where e: "recursive_retention_stats ar alpha beta n = Inl e"
  proof (cases "recursive_retention_stats ar alpha beta n")
    case (Inl e)
    then show ?thesis by (rule that)
  next
    case (Inr r)
    obtain P S where "r = (P, S)" by (cases r)
    with Inr rrs_Inr_no_division_raises [of ar alpha beta n P S] False show ?thesis by simp
  qed
  from rrs_Inl_division [OF e] obtain x y where "f_div ar x y = Inl e"
    unfolding base_ratio_def step_ratio_def by blast
  from f64_division_error [OF assms this] e False show ?thesis by simp
qed


lemma is_f64_examples:
  "is_f64 (1 / 2)" "is_f64 (1 / 4)" "is_f64 (1 / 8)" "is_f64 (1 / 16)"
  "is_f64 (3 / 2)" "is_f64 (5 / 2)" "is_f64 (7 / 2)" "is_f64 (3 / 8)" "is_f64 (5 / 16)"
  "is_f64 4"
  using is_f64_dyadic_quotient [of 1 1] is_f64_dyadic_quotient [of 1 2]
    is_f64_dyadic_quotient [of 1 3] is_f64_dyadic_quotient [of 1 4]
    is_f64_dyadic_quotient [of 3 1] is_f64_dyadic_quotient [of 5 1]
    is_f64_dyadic_quotient [of 7 1] is_f64_dyadic_quotient [of 3 3]
    is_f64_dyadic_quotient [of 5 4] is_f64_int [of 4]
  by simp_all

lemma f64_of_int_3 [simp]: "f64_of_int 3 = Fin 3"
  using f64_of_int_exact [of 3] by simp

lemma half_result:
  "recursive_retention_stats python_f64 (Fin (1 / 2)) (Fin (1 / 2)) 4 =
     Inr ([None, Some (Fin (1 / 2)), Some (Fin (1 / 8)), Some (Fin (1 / 16))],
          [None, Some (Fin (1 / 2)), Some (Fin (3 / 8)), Some (Fin (5 / 16))])"
proof -
  note ev = python_f64_def f64_ops_Fin is_f64_exact is_f64_examples
  have b: "base_ratio python_f64 (Fin (1 / 2)) (Fin (1 / 2)) = Inr (Fin (1 / 2))"
    by (simp add: base_ratio_def ev)
  have s1: "f_sub python_f64 (f_of_int python_f64 1) (Fin (1 / 2)) = Fin (1 / 2)"
    by (simp add: ev)
  have q2: "step_ratio python_f64 (Fin (1 / 2)) (Fin (1 / 2)) 2 = Inr (Fin (1 / 4))"
    by (simp add: step_ratio_def ev)
  have q3: "step_ratio python_f64 (Fin (1 / 2)) (Fin (1 / 2)) 3 = Inr (Fin (1 / 2))"
    by (simp add: step_ratio_def ev)
  have p2: "f_mul python_f64 (Fin (1 / 4)) (Fin (1 / 2)) = Fin (1 / 8)" by (simp add: ev)
  have s2: "f_sub python_f64 (Fin (1 / 2)) (Fin (1 / 8)) = Fin (3 / 8)" by (simp add: ev)
  have p3: "f_mul python_f64 (Fin (1 / 2)) (Fin (1 / 8)) = Fin (1 / 16)" by (simp add: ev)
  have s3: "f_sub python_f64 (Fin (3 / 8)) (Fin (1 / 16)) = Fin (5 / 16)" by (simp add: ev)
  let ?a = "Fin (1 / 2)"
  have "rrs_loop python_f64 ?a ?a 4 2 [None, Some ?a] [None, Some ?a] =
        rrs_loop python_f64 ?a ?a 4 (2 + 1)
          ([None, Some ?a] @ [Some (f_mul python_f64 (Fin (1 / 4)) ?a)])
          ([None, Some ?a] @ [Some (f_sub python_f64 ?a (f_mul python_f64 (Fin (1 / 4)) ?a))])"
    by (rule rrs_loop_step [OF _ _ _ _ _ _ q2]) simp_all
  also have "\<dots> = rrs_loop python_f64 ?a ?a 4 3
          [None, Some ?a, Some (Fin (1 / 8))] [None, Some ?a, Some (Fin (3 / 8))]"
    unfolding p2 s2 by simp
  also have "\<dots> = rrs_loop python_f64 ?a ?a 4 (3 + 1)
          ([None, Some ?a, Some (Fin (1 / 8))] @
           [Some (f_mul python_f64 (Fin (1 / 2)) (Fin (1 / 8)))])
          ([None, Some ?a, Some (Fin (3 / 8))] @
           [Some (f_sub python_f64 (Fin (3 / 8)) (f_mul python_f64 (Fin (1 / 2)) (Fin (1 / 8))))])"
    by (rule rrs_loop_step [OF _ _ _ _ _ _ q3]) simp_all
  also have "\<dots> = Inr ([None, Some ?a, Some (Fin (1 / 8)), Some (Fin (1 / 16))],
          [None, Some ?a, Some (Fin (3 / 8)), Some (Fin (5 / 16))])"
    unfolding p3 s3 by (simp add: rrs_loop_stop)
  finally show ?thesis
    by (simp add: recursive_retention_stats_def b s1 Let_def)
qed

lemma is_f64_big_alpha: "is_f64 big_alpha"
  using round_big_alpha_plus [of 0] by (simp add: is_f64_def)

lemma numpy_neq_python: "numpy_f64 \<noteq> python_f64"
proof
  assume "numpy_f64 = python_f64"
  then have "f_div numpy_f64 (Fin 0) (Fin 0) = f_div python_f64 (Fin 0) (Fin 0)" by simp
  then show False by (simp add: numpy_f64_def python_f64_def)
qed

text \<open>
  Claim C10, as amended. For float arguments of either kind and every integer
  \<open>num_periods\<close>, the call returns exactly when none of its divisions raises, and then
  the two lists have length \<open>max 2 num_periods\<close> and start with the entries built before
  the loop, \<open>None\<close> at index 0 and the base case at index 1: with \<open>num_periods\<close> 0 or 1
  they have length 2. Otherwise the arguments are Python floats and the call raises
  ZeroDivisionError. With numpy.float64 arguments no division raises, whatever \<open>alpha\<close>
  and \<open>beta\<close> are; with Python floats a division raises when its divisor is zero:
  \<open>alpha + beta\<close> in the base case, \<open>alpha + beta + t - 1\<close> in round \<open>t\<close> of the loop.
\<close>

theorem retention_stats_length_any_periods:
  assumes "ar = numpy_f64 \<or> ar = python_f64"
  shows "(if no_division_raises ar alpha beta num_periods
          then \<exists>P S. recursive_retention_stats ar alpha beta num_periods = Inr (P, S) \<and>
                 length P = nat (max 2 num_periods) \<and> length S = nat (max 2 num_periods) \<and>
                 take 2 P = [None, Some (f64_divide alpha (f64_add alpha beta))] \<and>
                 take 2 S =
                   [None, Some (f64_sub (Fin 1) (f64_divide alpha (f64_add alpha beta)))]
          else ar = python_f64 \<and>
               recursive_retention_stats ar alpha beta num_periods = Inl ZeroDivisionError) \<and>
         no_division_raises numpy_f64 alpha beta num_periods \<and>
         (no_division_raises python_f64 alpha beta num_periods \<longleftrightarrow>
            f64_add alpha beta \<noteq> Fin 0 \<and>
            (\<forall>t. 2 \<le> t \<and> t < num_periods \<longrightarrow>
               f64_sub (f64_add (f64_add alpha beta) (f64_of_int t)) (Fin 1) \<noteq> Fin 0))"
  using f64_rrs_any [OF assms, of alpha beta num_periods]
    numpy_no_division_raises [of alpha beta num_periods]
    python_no_division_raises [of alpha beta num_periods]
  by simp

theorem retention_stats_length_any_periods_witness:
  "(numpy_f64 = numpy_f64 \<or> numpy_f64 = python_f64) \<and>
   no_division_raises numpy_f64 (Fin 1) (Fin 1) (- 3) \<and>
   recursive_retention_stats numpy_f64 (Fin 1) (Fin 1) (- 3) =
     Inr ([None, Some (Fin (1 / 2))], [None, Some (Fin (1 / 2))])"
proof -
  have v: "f64_divide (Fin 1) (f64_add (Fin 1) (Fin 1)) = Fin (1 / 2)"
    "f64_sub (Fin 1) (Fin (1 / 2)) = Fin (1 / 2)"
    by (simp_all add: f64_ops_Fin is_f64_exact is_f64_examples)
  have h: "numpy_f64 = numpy_f64 \<or> numpy_f64 = python_f64" by simp
  note th = retention_stats_length_any_periods [OF h, of "Fin 1" "Fin 1" "- 3"]
  from th have nd: "no_division_raises numpy_f64 (Fin 1) (Fin 1) (- 3)" by (rule conjunct1 [OF conjunct2])
  from th have "\<exists>P S. recursive_retention_stats numpy_f64 (Fin 1) (Fin 1) (- 3) = Inr (P, S) \<and>
      length P = nat (max 2 (- 3)) \<and> length S = nat (max 2 (- 3)) \<and>
      take 2 P = [None, Some (f64_divide (Fin 1) (f64_add (Fin 1) (Fin 1)))] \<and>
      take 2 S = [None, Some (f64_sub (Fin 1) (f64_divide (Fin 1) (f64_add (Fin 1) (Fin 1))))]"
    by (simp only: nd if_True)
  then obtain P S where
    res: "recursive_retention_stats numpy_f64 (Fin 1) (Fin 1) (- 3) = Inr (P, S)" and
    len: "length P = nat (max 2 (- 3))" "length S = nat (max 2 (- 3))" and
    tk: "take 2 P = [None, Some (f64_divide (Fin 1) (f64_add (Fin 1) (Fin 1)))]"
        "take 2 S = [None, Some (f64_sub (Fin 1) (f64_divide (Fin 1) (f64_add (Fin 1) (Fin 1))))]"
    by blast
  from len have "take 2 P = P" "take 2 S = S" by simp_all
  with tk have "P = [None, Some (Fin (1 / 2))]" "S = [None, Some (Fin (1 / 2))]"
    by (simp_all only: v)
  with res nd show ?thesis by simp
qed

text \<open>
  Claim C10 as stated fails for Python floats: with \<open>alpha = beta = 0.0\<close> the base case
  divides by zero, and the call raises ZeroDivisionError instead of returning two lists
  of length 2.
\<close>

theorem retention_stats_zero_division_counterexample:
  "recursive_retention_stats python_f64 (Fin 0) (Fin 0) 1 = Inl ZeroDivisionError"
  by (simp add: recursive_retention_stats_def base_ratio_def python_f64_def f64_ops_Fin
        is_f64_exact)

text \<open>
  Claim C3. For float64 arguments \<open>alpha > 0\<close> and \<open>beta > 0\<close>, of either kind, and
  \<open>num_periods \<ge> 2\<close> the call returns two lists \<open>P\<close> and \<open>S\<close> of length exactly
  \<open>num_periods\<close> whose index 0 is \<open>None\<close>, with \<open>P[1] = alpha / (alpha + beta)\<close>,
  \<open>S[1] = 1 - P[1]\<close> and, for every \<open>t\<close> from 2 to \<open>num_periods - 1\<close>,
  \<open>P[t] = ((beta + t - 2) / (alpha + beta + t - 1)) * P[t-1]\<close> and
  \<open>S[t] = S[t-1] - P[t]\<close>, where every operation is the float64 operation and the
  expressions are evaluated from the left, as Python does. The number of periods is at
  most \<open>2^53\<close>, so that the loop index is itself a float64 value.
\<close>

theorem retention_stats_recursion:
  assumes "ar = numpy_f64 \<or> ar = python_f64"
    and "is_f64 alpha" and "is_f64 beta" and "0 < alpha" and "0 < beta"
    and "2 \<le> num_periods" and "num_periods \<le> 2 ^ 53"
  shows "\<exists>P S. recursive_retention_stats ar (Fin alpha) (Fin beta) num_periods = Inr (P, S) \<and>
      length P = nat num_periods \<and> length S = nat num_periods \<and>
      P ! 0 = None \<and> S ! 0 = None \<and>
      P ! 1 = Some (f64_divide (Fin alpha) (f64_add (Fin alpha) (Fin beta))) \<and>
      S ! 1 = Some (f64_sub (Fin 1) (f64_divide (Fin alpha) (f64_add (Fin alpha) (Fin beta)))) \<and>
      (\<forall>t. 2 \<le> t \<and> t < num_periods \<longrightarrow>
         (\<exists>p' s' p. P ! nat (t - 1) = Some p' \<and> S ! nat (t - 1) = Some s' \<and>
            p = f64_mul
                  (f64_divide
                     (f64_sub (f64_add (Fin beta) (Fin (of_int t))) (Fin 2))
                     (f64_sub (f64_add (f64_add (Fin alpha) (Fin beta)) (Fin (of_int t)))
                        (Fin 1)))
                  p' \<and>
            P ! nat t = Some p \<and> S ! nat t = Some (f64_sub s' p)))"
proof -
  have n: "nat (max 2 num_periods) = nat num_periods" using assms(6) by simp
  have T: "f64_of_int t = Fin (of_int t)" if "2 \<le> t \<and> t < num_periods" for t
    using that assms(7) by (intro f64_of_int_exact) simp
  from f64_rrs_result [OF assms(1,2,3,4,5), of num_periods] obtain P S where
    res: "recursive_retention_stats ar (Fin alpha) (Fin beta) num_periods = Inr (P, S)" and
    len: "length P = nat num_periods" "length S = nat num_periods" and
    first: "P ! 0 = None" "S ! 0 = None"
      "P ! 1 = Some (f64_divide (Fin alpha) (f64_add (Fin alpha) (Fin beta)))"
      "S ! 1 = Some (f64_sub (Fin 1) (f64_divide (Fin alpha) (f64_add (Fin alpha) (Fin beta))))" and
    rec: "\<forall>t. 2 \<le> t \<and> t < num_periods \<longrightarrow>
         (\<exists>p' s' p. P ! nat (t - 1) = Some p' \<and> S ! nat (t - 1) = Some s' \<and>
            p = f64_mul
                  (f64_divide (f64_sub (f64_add (Fin beta) (f64_of_int t)) (Fin 2))
                     (f64_sub (f64_add (f64_add (Fin alpha) (Fin beta)) (f64_of_int t)) (Fin 1)))
                  p' \<and>
            P ! nat t = Some p \<and> S ! nat t = Some (f64_sub s' p))"
    unfolding n by blast
  have rec': "\<forall>t. 2 \<le> t \<and> t < num_periods \<longrightarrow>
         (\<exists>p' s' p. P ! nat (t - 1) = Some p' \<and> S ! nat (t - 1) = Some s' \<and>
            p = f64_mul
                  (f64_divide
                     (f64_sub (f64_add (Fin beta) (Fin (of_int t))) (Fin 2))
                     (f64_sub (f64_add (f64_add (Fin alpha) (Fin beta)) (Fin (of_int t)))
                        (Fin 1)))
                  p' \<and>
            P ! nat t = Some p \<and> S ! nat t = Some (f64_sub s' p))"
  proof (intro allI impI)
    fix t assume t: "2 \<le> t \<and> t < num_periods"
    from rec [rule_format, OF t] show "\<exists>p' s' p. P ! nat (t - 1) = Some p' \<and>
            S ! nat (t - 1) = Some s' \<and>
            p = f64_mul
                  (f64_divide
                     (f64_sub (f64_add (Fin beta) (Fin (of_int t))) (Fin 2))
                     (f64_sub (f64_add (f64_add (Fin alpha) (Fin beta)) (Fin (of_int t)))
                        (Fin 1)))
                  p' \<and>
            P ! nat t = Some p \<and> S ! nat t = Some (f64_sub s' p)"
      unfolding T [OF t] .
  qed
  from res len first rec' show ?thesis by blast
qed

theorem retention_stats_recursion_witness:
  "(python_f64 = numpy_f64 \<or> python_f64 = python_f64) \<and>
   is_f64 (1 / 2) \<and> (0::real) < 1 / 2 \<and> (2::int) \<le> 4 \<and> (4::int) \<le> 2 ^ 53 \<and>
   recursive_retention_stats python_f64 (Fin (1 / 2)) (Fin (1 / 2)) 4 =
     Inr ([None, Some (Fin (1 / 2)), Some (Fin (1 / 8)), Some (Fin (1 / 16))],
          [None, Some (Fin (1 / 2)), Some (Fin (3 / 8)), Some (Fin (5 / 16))]) \<and>
   (\<exists>P S. recursive_retention_stats python_f64 (Fin (1 / 2)) (Fin (1 / 2)) 4 = Inr (P, S) \<and>
      length P = 4 \<and> length S = 4 \<and> P ! 0 = None \<and> S ! 0 = None \<and>
      P ! 1 = Some (Fin (1 / 2)) \<and> S ! 1 = Some (Fin (1 / 2)) \<and>
      P ! 2 = Some (f64_mul (f64_divide (Fin (1 / 2)) (Fin 2)) (Fin (1 / 2))))"
proof -
  note ev = f64_ops_Fin is_f64_exact is_f64_examples
  have h: "python_f64 = numpy_f64 \<or> python_f64 = python_f64" by simp
  have f: "is_f64 (1 / 2)" by (rule is_f64_examples)
  from retention_stats_recursion [OF h f f, of 4] obtain P S where
    res: "recursive_retention_stats python_f64 (Fin (1 / 2)) (Fin (1 / 2)) 4 = Inr (P, S)" and
    len: "length P = 4" "length S = 4" and
    zero: "P ! 0 = None" "S ! 0 = None" and
    one: "P ! 1 = Some (Fin (1 / 2))" "S ! 1 = Some (Fin (1 / 2))" and
    rec: "\<forall>t. 2 \<le> t \<and> t < 4 \<longrightarrow>
         (\<exists>p' s' p. P ! nat (t - 1) = Some p' \<and> S ! nat (t - 1) = Some s' \<and>
            p = f64_mul
                  (f64_divide
                     (f64_sub (f64_add (Fin (1 / 2)) (Fin (of_int t))) (Fin 2))
                     (f64_sub (f64_add (f64_add (Fin (1 / 2)) (Fin (1 / 2))) (Fin (of_int t)))
                        (Fin 1)))
                  p' \<and>
            P ! nat t = Some p \<and> S ! nat t = Some (f64_sub s' p))"
    by (auto simp: ev)
  from rec [rule_format, of 2] one
  have "P ! 2 = Some (f64_mul (f64_divide (Fin (1 / 2)) (Fin 2)) (Fin (1 / 2)))"
    by (auto simp: ev)
  with res len zero one h f half_result show ?thesis by simp
qed

text \<open>
  Claim C4, as amended. For float64 arguments \<open>alpha > 0\<close> and \<open>beta > 0\<close>, of either
  kind, and \<open>2 \<le> num_periods \<le> 2^53\<close>, every \<open>P[t]\<close> and \<open>S[t]\<close> with \<open>t\<close> from 1 to
  \<open>num_periods - 1\<close> is a finite float, \<open>0 \<le> P[t] \<le> 1\<close>, \<open>S[t] \<le> 1\<close>, and \<open>S\<close> does not
  increase over \<open>t \<ge> 1\<close>. That \<open>S[t]\<close> is not negative and that the entries of \<open>P\<close> add
  up to at most 1 does not survive rounding.
\<close>

theorem retention_stats_probabilities:
  assumes "ar = numpy_f64 \<or> ar = python_f64"
    and "is_f64 alpha" and "is_f64 beta" and "0 < alpha" and "0 < beta"
    and "2 \<le> num_periods" and "num_periods \<le> 2 ^ 53"
  shows "\<exists>P S. recursive_retention_stats ar (Fin alpha) (Fin beta) num_periods = Inr (P, S) \<and>
      (\<forall>t. 1 \<le> t \<and> t < num_periods \<longrightarrow>
         (\<exists>p s. P ! nat t = Some (Fin p) \<and> S ! nat t = Some (Fin s) \<and>
            0 \<le> p \<and> p \<le> 1 \<and> s \<le> 1)) \<and>
      (\<forall>t. 2 \<le> t \<and> t < num_periods \<longrightarrow>
         (\<exists>s' s. S ! nat (t - 1) = Some (Fin s') \<and> S ! nat t = Some (Fin s) \<and> s \<le> s'))"
proof -
  from f64_rrs_result [OF assms(1,2,3,4,5), of num_periods] obtain P S where
    res: "recursive_retention_stats ar (Fin alpha) (Fin beta) num_periods = Inr (P, S)"
    by blast
  note b = f64_rrs_bounds [OF assms(1,2,3,4,5,7) res]
  have "\<exists>p s. P ! nat t = Some (Fin p) \<and> S ! nat t = Some (Fin s) \<and>
            0 \<le> p \<and> p \<le> 1 \<and> s \<le> 1" if "1 \<le> t \<and> t < num_periods" for t
    using b [of t] that by blast
  moreover have "\<exists>s' s. S ! nat (t - 1) = Some (Fin s') \<and> S ! nat t = Some (Fin s) \<and> s \<le> s'"
    if "2 \<le> t \<and> t < num_periods" for t
    using b [of t] that by fastforce
  ultimately show ?thesis using res by blast
qed

theorem retention_stats_probabilities_witness:
  "(numpy_f64 = numpy_f64 \<or> numpy_f64 = python_f64) \<and>
   is_f64 big_alpha \<and> is_f64 1 \<and> 0 < big_alpha \<and> (0::real) < 1 \<and>
   (2::int) \<le> 3 \<and> (3::int) \<le> 2 ^ 53 \<and>
   (\<exists>P S. recursive_retention_stats numpy_f64 (Fin big_alpha) (Fin 1) 3 = Inr (P, S) \<and>
      (\<exists>p s. P ! 2 = Some (Fin p) \<and> S ! 2 = Some (Fin s) \<and> 0 \<le> p \<and> p \<le> 1 \<and> s \<le> 1) \<and>
      (\<exists>s' s. S ! 1 = Some (Fin s') \<and> S ! 2 = Some (Fin s) \<and> s \<le> s'))"
proof -
  have h: "numpy_f64 = numpy_f64 \<or> numpy_f64 = python_f64" by simp
  from retention_stats_probabilities [OF h is_f64_big_alpha is_f64_small_ints(1), of 3]
  obtain P S where
    res: "recursive_retention_stats numpy_f64 (Fin big_alpha) (Fin 1) 3 = Inr (P, S)" and
    a: "\<forall>t. 1 \<le> t \<and> t < 3 \<longrightarrow>
         (\<exists>p s. P ! nat t = Some (Fin p) \<and> S ! nat t = Some (Fin s) \<and>
            0 \<le> p \<and> p \<le> 1 \<and> s \<le> 1)" and
    b: "\<forall>t. 2 \<le> t \<and> t < 3 \<longrightarrow>
         (\<exists>s' s. S ! nat (t - 1) = Some (Fin s') \<and> S ! nat t = Some (Fin s) \<and> s \<le> s')"
    by auto
  from a [rule_format, of 2] b [rule_format, of 2] res h is_f64_big_alpha show ?thesis
    by simp
qed

text \<open>
  Claim C4 as stated fails in float64: with \<open>alpha = 2^60\<close> and \<open>beta = 1\<close> the sum
  \<open>alpha + beta\<close> rounds to \<open>alpha\<close>, so that \<open>P[1] = 1\<close> and \<open>S[1] = 0\<close>, while
  \<open>P[2] = 2^-60\<close> is positive: \<open>S[2] = -2^-60\<close> is negative, and \<open>P[1] + P[2]\<close> exceeds 1.
\<close>

theorem retention_stats_negative_counterexample:
  "is_f64 big_alpha \<and> 0 < big_alpha \<and>
   recursive_retention_stats numpy_f64 (Fin big_alpha) (Fin 1) 3 =
     Inr ([None, Some (Fin 1), Some (Fin (1 / big_alpha))],
          [None, Some (Fin 0), Some (Fin (- (1 / big_alpha)))]) \<and>
   - (1 / big_alpha) < 0 \<and> 1 < 1 + 1 / big_alpha"
  using is_f64_big_alpha big_alpha_result by simp

subsection \<open>The indicator map\<close>

lemma indicator_map_loop_ok:
  assumes "i + length cs \<le> n" and "distinct cs"
  shows "\<exists>imap'. indicator_map_loop n i cs imap = Inr imap' \<and>
           (\<forall>j < length cs. imap' (cs ! j) = Some ((replicate n False)[0 := True, i + j := True])) \<and>
           (\<forall>k. k \<notin> set cs \<longrightarrow> imap' k = imap k)"
  using assms
proof (induction cs arbitrary: i imap)
  case Nil
  then show ?case by simp
next
  case (Cons c rest)
  let ?v = "(replicate n False)[0 := True, i := True]"
  have n: "\<not> n \<le> 0" "\<not> n \<le> i" using Cons.prems(1) by simp_all
  have step: "indicator_map_loop n i (c # rest) imap =
              indicator_map_loop n (Suc i) rest (imap(c \<mapsto> ?v))"
    using n by (simp add: Let_def)
  have "Suc i + length rest \<le> n" "distinct rest" using Cons.prems by simp_all
  from Cons.IH [OF this, of "imap(c \<mapsto> ?v)"] obtain imap' where
    res: "indicator_map_loop n (Suc i) rest (imap(c \<mapsto> ?v)) = Inr imap'" and
    vec: "\<forall>j < length rest. imap' (rest ! j) =
            Some ((replicate n False)[0 := True, Suc i + j := True])" and
    same: "\<forall>k. k \<notin> set rest \<longrightarrow> imap' k = (imap(c \<mapsto> ?v)) k"
    by blast
  have c: "c \<notin> set rest" using Cons.prems(2) by simp
  have all: "\<forall>j < length (c # rest). imap' ((c # rest) ! j) =
            Some ((replicate n False)[0 := True, i + j := True])"
  proof (intro allI impI)
    fix j assume j: "j < length (c # rest)"
    show "imap' ((c # rest) ! j) = Some ((replicate n False)[0 := True, i + j := True])"
    proof (cases j)
      case 0
      then show ?thesis using same c by simp
    next
      case (Suc j')
      then show ?thesis using vec j by simp
    qed
  qed
  have "\<forall>k. k \<notin> set (c # rest) \<longrightarrow> imap' k = imap k" using same by simp
  with step res all show ?case by simp
qed

lemma indicator_vector_count:
  assumes "i < n"
  shows "length (filter id ((replicate n False)[0 := True, i := True])) = (if i = 0 then 1 else 2)"
proof -
  let ?v = "(replicate n False)[0 := True, i := True]"
  have "{j. j < length ?v \<and> id (?v ! j)} = {0, i}"
    using assms by (auto simp: nth_list_update)
  then have "length (filter id ?v) = card {0, i}"
    by (simp only: length_filter_conv_card)
  then show ?thesis by simp
qed

text \<open>
  Claim C8. For a dataset with \<open>n_cats\<close> distinct categories, the constructor builds an
  indicator map that gives the category at position \<open>i\<close> of the sorted category list a
  boolean vector of length \<open>n_cats\<close> that is true at index 0 and at index \<open>i\<close> and false
  everywhere else: it has two true entries, and one for the reference category \<open>i = 0\<close>.
\<close>

theorem indicator_map_vectors:
  assumes "distinct (map fst data)" and "i < length data"
  shows "\<exists>m v. init data = Inr m \<and>
           self_categories m = sort (map fst data) \<and> self_n_cats m = length data \<and>
           self_imap m (self_categories m ! i) = Some v \<and>
           length v = self_n_cats m \<and> v ! 0 \<and> v ! i \<and>
           (\<forall>j < self_n_cats m. j \<noteq> 0 \<and> j \<noteq> i \<longrightarrow> \<not> v ! j) \<and>
           length (filter id v) = (if i = 0 then 1 else 2)"
proof -
  let ?cs = "sort (map fst data)"
  let ?n = "length data"
  let ?v = "(replicate ?n False)[0 := True, i := True]"
  have len: "0 + length ?cs \<le> ?n" by simp
  have dist: "distinct ?cs" using assms(1) by simp
  from indicator_map_loop_ok [OF len dist, of Map.empty] obtain imap' where
    res: "indicator_map_loop ?n 0 ?cs Map.empty = Inr imap'" and
    vec: "\<forall>j < length ?cs. imap' (?cs ! j) = Some ((replicate ?n False)[0 := True, 0 + j := True])"
    by blast
  let ?m = "\<lparr>self_data = data, self_categories = ?cs, self_n_cats = ?n, self_imap = imap',
             self_alpha = Map.empty, self_beta = Map.empty, self_opt = None\<rparr>"
  have init: "init data = Inr ?m"
    using res by (simp add: init_def indicator_map_def)
  have iv: "imap' (?cs ! i) = Some ?v" using vec assms(2) by simp
  have cnt: "length (filter id ?v) = (if i = 0 then 1 else 2)"
    by (rule indicator_vector_count [OF assms(2)])
  have others: "\<forall>j < ?n. j \<noteq> 0 \<and> j \<noteq> i \<longrightarrow> \<not> ?v ! j" by simp
  have n0: "0 < ?n" using assms(2) by linarith
  have v0: "?v ! 0" using n0 assms(2) by (simp add: nth_list_update)
  have vi: "?v ! i" using assms(2) by simp
  show ?thesis
    by (intro exI [of _ ?m] exI [of _ ?v] conjI init)
       (simp_all add: iv cnt v0 vi others)
qed

theorem indicator_map_vectors_witness:
  "distinct (map fst [(2::nat, [] :: cohort list), (1, []), (3, [])]) \<and>
   (2::nat) < length [(2::nat, [] :: cohort list), (1, []), (3, [])] \<and>
   (\<exists>m. init [(2::nat, [] :: cohort list), (1, []), (3, [])] = Inr m \<and>
      self_categories m = [1, 2, 3] \<and>
      self_imap m 3 = Some [True, False, True])"
proof -
  let ?d = "[(2::nat, [] :: cohort list), (1, []), (3, [])]"
  have d: "distinct (map fst ?d)" by simp
  have i: "(2::nat) < length ?d" by simp
  have s: "sort (map fst ?d) = [1, 2, 3]" by simp
  from indicator_map_vectors [OF d i] obtain m v where
    m: "init ?d = Inr m" and cs: "self_categories m = sort (map fst ?d)" and
    n: "self_n_cats m = length ?d" and
    iv: "self_imap m (self_categories m ! 2) = Some v" and
    len: "length v = self_n_cats m" and v0: "v ! 0" and v2: "v ! 2" and
    others: "\<forall>j < self_n_cats m. j \<noteq> 0 \<and> j \<noteq> 2 \<longrightarrow> \<not> v ! j"
    by blast
  have "length v = 3" using len n by simp
  then obtain x y z where v: "v = [x, y, z]"
    by (auto simp: length_Suc_conv numeral_3_eq_3)
  have "\<not> v ! 1" using others n by simp
  with v0 v2 v have "v = [True, False, True]" by simp
  with m cs iv s d i show ?thesis by simp
qed

subsection \<open>The likelihood\<close>

lemma npfloat_mult_commute: "a * b = b * (a::npfloat)"
  by (cases a; cases b) (simp_all add: mult.commute)

lemma foldl_add_sum_list: "foldl (+) a xs = a + sum_list (xs :: npfloat list)"
  by (induction xs arbitrary: a) (simp_all add: add.assoc)



lemma rrs_entries:
  assumes "recursive_retention_stats exact_arith alpha beta n = Inr (P, S)"
  shows "length P = nat (max 2 n) \<and> length S = nat (max 2 n) \<and>
         (\<forall>k. 1 \<le> k \<and> k < nat (max 2 n) \<longrightarrow> P ! k \<noteq> None \<and> S ! k \<noteq> None)"
proof -
  from rrs_general [of alpha beta n] assms have
    len: "length P = nat (max 2 n)" "length S = nat (max 2 n)" and
    tk: "take 2 P = [None, Some (alpha / (alpha + beta))]"
        "take 2 S = [None, Some (Fin 1 - alpha / (alpha + beta))]" and
    rec: "\<forall>k. 2 \<le> k \<and> k < n \<longrightarrow>
         (\<exists>p' s' pk. P ! nat (k - 1) = Some p' \<and> S ! nat (k - 1) = Some s' \<and>
            pk = (beta + np_of_int k - Fin 2) / (alpha + beta + np_of_int k - Fin 1) * p' \<and>
            P ! nat k = Some pk \<and> S ! nat k = Some (s' - pk))"
    by auto
  have one: "P ! 1 \<noteq> None \<and> S ! 1 \<noteq> None"
  proof -
    have "P ! 1 = take 2 P ! 1" "S ! 1 = take 2 S ! 1" by simp_all
    then show ?thesis unfolding tk by simp
  qed
  have "P ! k \<noteq> None \<and> S ! k \<noteq> None" if k: "1 \<le> k \<and> k < nat (max 2 n)" for k
  proof (cases "k = 1")
    case True
    then show ?thesis using one by simp
  next
    case False
    with k have "2 \<le> int k \<and> int k < n" by linarith
    with rec obtain pk s' where "P ! nat (int k) = Some pk" "S ! nat (int k) = Some (s' - pk)"
      by blast
    then show ?thesis by (simp only: nat_int) simp
  qed
  with len show ?thesis by blast
qed

lemma np_log_list_all_some:
  "\<forall>v \<in> set vs. v \<noteq> None \<Longrightarrow> np_log_list vs = Inr (map (\<lambda>v. np_log (the v)) vs)"
  by (induction vs rule: np_log_list.induct) simp_all

lemma py_index_last:
  "xs \<noteq> [] \<Longrightarrow> py_index xs (int (length xs) - 1) = Inr (xs ! (length xs - 1))"
  by (cases xs) (simp_all add: py_index_def)

lemma cohort_terms_spec:
  assumes len: "2 \<le> length active" and lost: "length active \<le> length lost"
    and lP: "length P = length active" and lS: "length S = length active"
    and some: "\<forall>k. 1 \<le> k \<and> k < length active \<longrightarrow> P ! k \<noteq> None \<and> S ! k \<noteq> None"
  shows "cohort_terms P S (active, lost) =
         Inr (sum_list (map (\<lambda>t. np_of_int (lost ! t) * np_log (the (P ! t)))
                          [1..<length active])
              + np_of_int (active ! (length active - 1))
                  * np_log (the (S ! (length active - 1))))"
proof -
  let ?n = "length active"
  have sl: "slice1 P (int ?n) = drop 1 P" by (simp add: slice1_def lP)
  have allsome: "\<forall>v \<in> set (drop 1 P). v \<noteq> None"
  proof
    fix v assume "v \<in> set (drop 1 P)"
    then obtain i where i: "i < length (drop 1 P)" "v = drop 1 P ! i"
      by (metis in_set_conv_nth)
    then have "v = P ! (1 + i)" "1 + i < ?n" using lP by simp_all
    with some show "v \<noteq> None" by simp
  qed
  have logs: "np_log_list (slice1 P (int ?n)) = Inr (map (\<lambda>v. np_log (the v)) (drop 1 P))"
    unfolding sl by (rule np_log_list_all_some [OF allsome])
  let ?logs = "map (\<lambda>v. np_log (the v)) (drop 1 P)"
  let ?lost = "map np_of_int (slice1 lost (int ?n))"
  have ll: "length ?lost = ?n - 1" using lost by (simp add: slice1_def)
  have llogs: "length ?logs = ?n - 1" by (simp add: lP)
  have died: "np_mul_arr ?logs ?lost = Inr (map2 (*) ?logs ?lost)"
    using ll llogs by (simp add: np_mul_arr_def)
  have died_eq: "map2 (*) ?logs ?lost =
                 map (\<lambda>t. np_of_int (lost ! t) * np_log (the (P ! t))) [1..<?n]"
  proof (rule nth_equalityI)
    show "length (map2 (*) ?logs ?lost) =
          length (map (\<lambda>t. np_of_int (lost ! t) * np_log (the (P ! t))) [1..<?n])"
      using ll llogs by simp
  next
    fix i assume "i < length (map2 (*) ?logs ?lost)"
    then have i: "i < ?n - 1" using ll llogs by simp
    then have i1: "1 + i < ?n" "1 + i \<le> length lost" using lost by simp_all
    have "map2 (*) ?logs ?lost ! i = ?logs ! i * ?lost ! i"
      using i ll llogs by simp
    also have "?logs ! i = np_log (the (P ! (1 + i)))"
      using i lP by simp
    also have "?lost ! i = np_of_int (lost ! (1 + i))"
      using i i1 lost by (simp add: slice1_def)
    finally show "map2 (*) ?logs ?lost ! i =
        map (\<lambda>t. np_of_int (lost ! t) * np_log (the (P ! t))) [1..<?n] ! i"
      using i by (simp add: npfloat_mult_commute del: upt_Suc)
  qed
  have n1: "1 \<le> ?n - 1 \<and> ?n - 1 < ?n" using len by linarith
  with some obtain sv where sv: "S ! (?n - 1) = Some sv" by (metis not_Some_eq)
  have ne: "active \<noteq> []" "S \<noteq> []" using len lS by auto
  have idxS: "py_index S (int ?n - 1) = Inr (Some sv)"
    using py_index_last [OF ne(2)] sv unfolding lS by simp
  have idxA: "py_index active (int ?n - 1) = Inr (active ! (?n - 1))"
    by (rule py_index_last [OF ne(1)])
  have "cohort_terms P S (active, lost) =
        Inr (foldl (+) 0 (map2 (*) ?logs ?lost) + np_log sv * np_of_int (active ! (?n - 1)))"
    unfolding cohort_terms_def
    by (simp only: prod.case Let_def sum.case logs died idxS idxA np_log_entry_def option.case)
  also have "foldl (+) 0 (map2 (*) ?logs ?lost) =
      sum_list (map (\<lambda>t. np_of_int (lost ! t) * np_log (the (P ! t))) [1..<?n])"
    unfolding died_eq by (simp add: foldl_add_sum_list)
  also have "np_log sv * np_of_int (active ! (?n - 1)) =
      np_of_int (active ! (?n - 1)) * np_log (the (S ! (?n - 1)))"
    unfolding sv by (simp only: option.sel npfloat_mult_commute [of "np_log sv"])
  finally show ?thesis .
qed

lemma cohort_loglike_spec:
  assumes len: "2 \<le> length active" and lost: "length active \<le> length lost"
  shows "cohort_loglike alpha beta (active, lost) =
         Inr (spec_cohort_loglike alpha beta (active, lost))"
proof -
  let ?n = "length active"
  obtain P S where res: "recursive_retention_stats exact_arith alpha beta (int ?n) = Inr (P, S)"
    using rrs_general [of alpha beta "int ?n"] by blast
  have mx: "nat (max 2 (int ?n)) = ?n" using len by simp
  from rrs_entries [OF res] have
    lP: "length P = ?n" and lS: "length S = ?n" and
    some: "\<forall>k. 1 \<le> k \<and> k < ?n \<longrightarrow> P ! k \<noteq> None \<and> S ! k \<noteq> None"
    unfolding mx by simp_all
  have "cohort_loglike alpha beta (active, lost) = cohort_terms P S (active, lost)"
    unfolding cohort_loglike_def by (simp only: prod.case Let_def res sum.case)
  then show ?thesis
    unfolding cohort_terms_spec [OF len lost lP lS some] spec_cohort_loglike_def
    by (simp only: prod.case res sum.case)
qed



lemma init_result:
  assumes "distinct (map fst data)"
  shows "\<exists>imap'. init data =
           Inr \<lparr>self_data = data, self_categories = sort (map fst data),
                self_n_cats = length data, self_imap = imap',
                self_alpha = Map.empty, self_beta = Map.empty, self_opt = None\<rparr> \<and>
           (\<forall>name \<in> fst ` set data. \<exists>ind. imap' name = Some ind \<and> length ind = length data)"
proof -
  let ?cs = "sort (map fst data)"
  let ?n = "length data"
  have len: "0 + length ?cs \<le> ?n" by simp
  have dist: "distinct ?cs" using assms by simp
  from indicator_map_loop_ok [OF len dist, of Map.empty] obtain imap' where
    res: "indicator_map_loop ?n 0 ?cs Map.empty = Inr imap'" and
    vec: "\<forall>j < length ?cs. imap' (?cs ! j) = Some ((replicate ?n False)[0 := True, 0 + j := True])"
    by blast
  have "\<exists>ind. imap' name = Some ind \<and> length ind = ?n" if "name \<in> fst ` set data" for name
  proof -
    from that have "name \<in> set ?cs" by simp
    then obtain j where "j < length ?cs" "?cs ! j = name" by (metis in_set_conv_nth)
    with vec show ?thesis by fastforce
  qed
  with res show ?thesis by (simp add: init_def indicator_map_def)
qed




subsection \<open>Cohorts with fewer than two periods\<close>

lemma rrs_below_two:
  "n \<le> 2 \<Longrightarrow> recursive_retention_stats exact_arith alpha beta n =
     Inr ([None, Some (alpha / (alpha + beta))], [None, Some (Fin 1 - alpha / (alpha + beta))])"
  by (simp add: recursive_retention_stats_def base_ratio_def np_of_int_def Let_def rrs_loop_stop)

lemma cohort_loglike_short:
  assumes "length active < 2"
  shows "cohort_loglike alpha_comb beta_comb (active, lost) =
         Inl (if active = [] then IndexError else NoneLogError)"
proof (cases active)
  case Nil
  then show ?thesis
    by (simp add: cohort_loglike_def cohort_terms_def rrs_below_two slice1_def np_mul_arr_def py_index_def
          np_log_entry_def)
next
  case (Cons x rest)
  with assms have rest: "rest = []" by simp
  show ?thesis
    unfolding Cons rest
    by (simp add: cohort_loglike_def cohort_terms_def rrs_below_two slice1_def np_mul_arr_def py_index_def
          np_log_entry_def)
qed

lemma cohorts_loop_short:
  assumes "(active, lost) \<in> set cs" and "length active < 2"
  shows "\<exists>e. cohorts_loop a b cs ll = Inl e"
  using assms(1)
proof (induction cs arbitrary: ll)
  case Nil
  then show ?case by simp
next
  case (Cons c cs)
  show ?case
  proof (cases "c = (active, lost)")
    case True
    then show ?thesis using cohort_loglike_short [OF assms(2), of a b lost] by simp
  next
    case False
    with Cons.prems have "(active, lost) \<in> set cs" by simp
    from Cons.IH [OF this] show ?thesis by (cases "cohort_loglike a b c") auto
  qed
qed

lemma logp_loop_short:
  assumes "(name, cohorts) \<in> set d" and "(active, lost) \<in> set cohorts"
    and "length active < 2"
  shows "\<exists>e. logp_loop m alpha beta d ll = Inl e"
  using assms(1)
proof (induction d arbitrary: ll)
  case Nil
  then show ?case by simp
next
  case (Cons x d)
  obtain name' cohorts' where x: "x = (name', cohorts')" by (cases x)
  show ?case
  proof (cases "x = (name, cohorts)")
    case True
    with x have eq: "name' = name" "cohorts' = cohorts" by simp_all
    have nr: "cohorts_loop a b cohorts ll \<noteq> Inr v" for a b ll v
      using cohorts_loop_short [OF assms(2,3), of a b ll] by auto
    show ?thesis
      unfolding x eq
      by (auto simp: nr split: option.splits sum.splits)
  next
    case False
    with Cons.prems have "(name, cohorts) \<in> set d" by simp
    from Cons.IH [OF this] show ?thesis
      unfolding x by (auto split: option.splits sum.splits)
  qed
qed

text \<open>
  Claim C6, as amended. \<^verbatim>\<open>_logp\<close> has no guard on the length of a cohort: a cohort with
  fewer than two periods goes through the loop body like any other, and the body raises
  for it (IndexError on \<^verbatim>\<open>active[-1]\<close> when the cohort is empty, the error of
  \<^verbatim>\<open>numpy.log(None)\<close> on \<^verbatim>\<open>sf[0]\<close> when it has one period). So for every dataset that
  contains such a cohort the evaluation raises and returns no value.
\<close>

theorem logp_short_cohort_raises:
  assumes "(name, cohorts) \<in> set (self_data m)" and "(active, lost) \<in> set cohorts"
    and "length active < 2"
  shows "(\<exists>e. logp m alpha beta = Inl e) \<and>
         cohort_loglike alpha_comb beta_comb (active, lost) =
           Inl (if active = [] then IndexError else NoneLogError)"
proof -
  from logp_loop_short [OF assms, of m alpha beta 0] obtain e where
    "logp_loop m alpha beta (self_data m) 0 = Inl e" by blast
  then have "logp m alpha beta = Inl e" by (simp add: logp_def)
  then show ?thesis using cohort_loglike_short [OF assms(3)] by blast
qed

text \<open>
  The claim as stated fails: on a dataset whose second cohort has one period, the
  evaluation does not return a value for the first cohort, it raises.
\<close>

lemma init_short_cohort_data: "init short_cohort_data = Inr short_cohort_model"
  by (simp add: init_def indicator_map_def short_cohort_data_def short_cohort_model_def)

theorem short_cohort_counterexample:
  "init short_cohort_data = Inr short_cohort_model \<and>
   logp short_cohort_model [Fin 0] [Fin 0] = Inl NoneLogError"
proof -
  have "logp short_cohort_model [Fin 0] [Fin 0] = Inl NoneLogError"
    by (simp add: logp_def short_cohort_model_def short_cohort_data_def mask_sum_def
          cohort_loglike_def cohort_terms_def rrs_below_two slice1_def np_mul_arr_def py_index_def
          np_log_entry_def zero_npfloat_def)
  with init_short_cohort_data show ?thesis by simp
qed

theorem logp_short_cohort_raises_witness:
  "(0::nat, [([10, 8], [0, 2]), ([5], [0])]) \<in> set (self_data short_cohort_model) \<and>
   ([5], [0]) \<in> set [([10, 8], [0, 2]), ([5::int], [0::int])] \<and> length [5::int] < 2 \<and>
   (\<exists>e. logp short_cohort_model [Fin 0] [Fin 0] = Inl e) \<and>
   cohort_loglike (Fin 1) (Fin 1) ([5], [0]) = Inl NoneLogError"
  using logp_short_cohort_raises [of 0 "[([10, 8], [0, 2]), ([5], [0])]" short_cohort_model
      "[5]" "[0]" "[Fin 0]" "[Fin 0]" "Fin 1" "Fin 1"]
  by (simp add: short_cohort_model_def short_cohort_data_def)

subsection \<open>Zero counts and zero probabilities\<close>

lemma sum_list_Fin: "sum_list (map (\<lambda>t. Fin (f t)) xs) = Fin (sum_list (map f xs))"
  by (induction xs) (simp_all add: zero_npfloat_def)

lemma spec_cohort_loglike_real:
  assumes a: "0 < a" and b: "0 < b" and len: "2 \<le> length active"
  shows "spec_cohort_loglike (Fin a) (Fin b) (active, lost) =
         Fin (sum_list (map (\<lambda>t. real_of_int (lost ! t) * ln (spec_P a b t)) [1..<length active])
              + real_of_int (active ! (length active - 1)) * ln (spec_S a b (length active - 1)))"
proof -
  let ?n = "length active"
  let ?P = "None # map (\<lambda>k. Some (Fin (spec_P a b k))) [1..<?n]"
  let ?S = "None # map (\<lambda>k. Some (Fin (spec_S a b k))) [1..<?n]"
  have mx: "nat (max 2 (int ?n)) = ?n" using len by simp
  have res: "recursive_retention_stats exact_arith (Fin a) (Fin b) (int ?n) = Inr (?P, ?S)"
    using rrs_real_lists [OF a b, of "int ?n"] unfolding mx .
  have nthP: "?P ! t = Some (Fin (spec_P a b t))" if t1: "1 \<le> t" and tn: "t < ?n" for t
  proof -
    obtain j where j: "t = Suc j" using t1 by (cases t) auto
    show ?thesis using tn unfolding j by (rule nth_from1)
  qed
  have nthS: "?S ! t = Some (Fin (spec_S a b t))" if t1: "1 \<le> t" and tn: "t < ?n" for t
  proof -
    obtain j where j: "t = Suc j" using t1 by (cases t) auto
    show ?thesis using tn unfolding j by (rule nth_from1)
  qed
  have posP: "0 < spec_P a b t" and posS: "0 < spec_S a b t" if t1: "1 \<le> t" for t
  proof -
    obtain j where j: "t = Suc j" using t1 by (cases t) auto
    show "0 < spec_P a b t" "0 < spec_S a b t"
      using spec_PS_pos [OF a b, of j] unfolding j by simp_all
  qed
  have terms: "map (\<lambda>t. np_of_int (lost ! t) * np_log (the (?P ! t))) [1..<?n] =
               map (\<lambda>t. Fin (real_of_int (lost ! t) * ln (spec_P a b t))) [1..<?n]"
  proof (rule map_cong [OF refl])
    fix t assume "t \<in> set [1..<?n]"
    then have t: "1 \<le> t" "t < ?n" by simp_all
    show "np_of_int (lost ! t) * np_log (the (?P ! t)) =
          Fin (real_of_int (lost ! t) * ln (spec_P a b t))"
      unfolding nthP [OF t] using posP [OF t(1)] by (simp add: np_of_int_def)
  qed
  have last: "1 \<le> ?n - 1" "?n - 1 < ?n" using len by linarith+
  have still: "np_of_int (active ! (?n - 1)) * np_log (the (?S ! (?n - 1))) =
               Fin (real_of_int (active ! (?n - 1)) * ln (spec_S a b (?n - 1)))"
    unfolding nthS [OF last] using posS [OF last(1)] by (simp add: np_of_int_def)
  show ?thesis
    unfolding spec_cohort_loglike_def
    by (simp only: prod.case res sum.case terms still sum_list_Fin plus_npfloat.simps)
qed


lemma NaN_add [simp]: "NaN + a = NaN" "a + NaN = NaN"
  by (cases a; simp)+









text \<open>
  The claim as stated fails: with the alpha coefficient at \<open>-1000\<close> the exponential
  underflows to \<open>0.0\<close>, \<open>P[1]\<close> is exactly 0, and on a cohort that lost nobody the term
  \<open>log(P[1]) * lost[1]\<close> is \<open>nan\<close>: the value returned is \<open>nan\<close>, not the \<open>0\<close> the
  other terms add up to.
\<close>

lemma init_zero_lost_data: "init zero_lost_data = Inr zero_lost_model"
  by (simp add: init_def indicator_map_def zero_lost_data_def zero_lost_model_def)


subsection \<open>Fitting\<close>

lemma logp_loop_opt:
  "logp_loop (m\<lparr>self_opt := v\<rparr>) alpha beta d ll = logp_loop m alpha beta d ll"
proof (induction d arbitrary: ll)
  case Nil
  show ?case by simp
next
  case (Cons x d)
  obtain name cohorts where x: "x = (name, cohorts)" by (cases x)
  show ?case unfolding x by (simp add: Cons.IH split: option.splits sum.splits)
qed

lemma objective_opt: "objective (m\<lparr>self_opt := v\<rparr>) = objective m"
  by (rule ext) (simp add: objective_def logp_def logp_loop_opt)




lemma init_fields:
  assumes "distinct (map fst data)" and "init data = Inr m"
  shows "self_data m = data" and "self_categories m = sort (map fst data)"
    and "self_n_cats m = length data" and "self_opt m = None"
    and "\<forall>name \<in> fst ` set data. \<exists>ind. self_imap m name = Some ind \<and> length ind = length data"
  using init_result [OF assms(1)] assms(2) by auto






text \<open>
  Claim C9, as amended. \<^verbatim>\<open>fit\<close> does not validate \<^verbatim>\<open>restarts\<close>. On a freshly constructed
  model and with \<open>restarts < 1\<close>, the outcome does not depend on the random draws or on
  the minimizer (nothing is minimized or evaluated) and the object is left as it was: a
  negative value makes the allocation of the random array raise ValueError; with
  \<open>restarts = 0\<close> the loop body never runs, and reading the unset \<^verbatim>\<open>self.opt\<close> raises
  TypeError when there is a category, while with no category the call returns normally.
\<close>

theorem fit_restarts_below_one:
  assumes "distinct (map fst data)" and "init data = Inr m" and "restarts < 1"
  shows "fit rng minimize restarts m =
         ((if restarts < 0 then Some ValueError
           else if data = [] then None else Some TypeError), m)"
proof (cases "restarts < 0")
  case True
  then show ?thesis by (simp add: fit_def)
next
  case False
  with assms(3) have z: "restarts = 0" by simp
  note f = init_fields [OF assms(1,2)]
  have loop: "fit_loop minimize
      (map (map (\<lambda>r. Fin 4 * r - Fin 3)) (random_matrix rng (nat restarts) (2 * self_n_cats m)))
      None m = (None, None, m)"
    unfolding z by (simp add: random_matrix_def)
  have pub: "publish_loop (self_categories m) m =
             ((if data = [] then None else Some TypeError), m)"
  proof (cases "sort (map fst data)")
    case Nil
    then have "data = []" by (metis length_sort list.size(3) length_0_conv map_is_Nil_conv)
    then show ?thesis using f(2) by simp
  next
    case (Cons c cs)
    then have "c \<in> set (sort (map fst data))" by simp
    then have "c \<in> fst ` set data" by simp
    with f(5) obtain ind where ind: "self_imap m c = Some ind" by blast
    have ne: "data \<noteq> []" using Cons by auto
    show ?thesis using f(2,4) Cons ind ne by simp
  qed
  show ?thesis
    unfolding fit_def using False loop pub by (simp add: Let_def)
qed

lemma example_guesses:
  "map (map (\<lambda>r. Fin 4 * r - Fin 3)) (random_matrix example_rng 2 2) =
     [[Fin (- 3), Fin 0], [Fin 0, Fin (- 3)]]"
  "map (map (\<lambda>r. Fin 4 * r - Fin 3)) (random_matrix example_rng 1 2) = [[Fin (- 3), Fin 0]]"
  by (simp_all add: random_matrix_def example_rng_def minus_npfloat_def upt_rec)

lemma zero_lost_cohort:
  assumes a: "0 < a" and b: "0 < b"
  shows "cohort_loglike (Fin a) (Fin b) ([10, 10], [0, 0]) = Inr (Fin (10 * ln (b / (a + b))))"
proof -
  have eq: "1 - a / (a + b) = b / (a + b)" using a b by (simp add: field_simps)
  have "cohort_loglike (Fin a) (Fin b) ([10, 10], [0, 0]) =
        Inr (spec_cohort_loglike (Fin a) (Fin b) ([10, 10], [0, 0]))"
    by (rule cohort_loglike_spec) simp_all
  also have "spec_cohort_loglike (Fin a) (Fin b) ([10, 10], [0, 0]) =
        Fin (sum_list (map (\<lambda>t. real_of_int ([0, 0] ! t) * ln (spec_P a b t)) [1..<length [10, 10 :: int]])
              + real_of_int ([10, 10] ! (length [10, 10 :: int] - 1))
                  * ln (spec_S a b (length [10, 10 :: int] - 1)))"
    by (rule spec_cohort_loglike_real [OF a b]) simp
  also have "\<dots> = Fin (10 * ln (b / (a + b)))"
    by (simp add: eq)
  finally show ?thesis .
qed

lemma zero_lost_objective:
  assumes "- 746 \<le> x" "x \<le> 710" "- 746 \<le> y" "y \<le> 710"
  shows "objective zero_lost_model [Fin x, Fin y] =
         Inr (Fin (- (10 * ln (exp y / (exp x + exp y)))))"
  using assms
  by (simp add: objective_def logp_def zero_lost_model_def zero_lost_data_def mask_sum_def
        zero_npfloat_def zero_lost_cohort)

subsection \<open>Which restart is published\<close>

text \<open>
  Claim C1 says that \<^verbatim>\<open>fit\<close> publishes the solution of the restart with the lowest
  objective value, the first one on a tie. The code does not: the test of line 240 holds
  on every iteration, so each restart overwrites the previous one and the last restart
  is published. Here the two initial guesses are \<open>[-3, 0]\<close> and \<open>[0, -3]\<close> and the
  minimizer returns each starting point with its objective value; the first restart has
  the strictly lower value, and \<^verbatim>\<open>self.opt\<close>, alpha and beta come from the second.
\<close>

theorem fit_publishes_last_restart:
  "fit example_rng start_point_minimize 2 zero_lost_model =
     (None, zero_lost_model
              \<lparr>self_alpha := [0 \<mapsto> Fin 1], self_beta := [0 \<mapsto> Fin (exp (- 3))],
               self_opt := Some [Fin 0, Fin (- 3)]\<rparr>) \<and>
   start_point_minimize (objective zero_lost_model) [Fin (- 3), Fin 0] =
     Inr \<lparr>opt_fun = Fin (- (10 * ln (1 / (exp (- 3) + 1)))), opt_x = [Fin (- 3), Fin 0],
          opt_success = True\<rparr> \<and>
   start_point_minimize (objective zero_lost_model) [Fin 0, Fin (- 3)] =
     Inr \<lparr>opt_fun = Fin (- (10 * ln (exp (- 3) / (1 + exp (- 3))))), opt_x = [Fin 0, Fin (- 3)],
          opt_success = True\<rparr> \<and>
   (- (10 * ln (1 / (exp (- 3) + 1))) :: real) < - (10 * ln (exp (- 3) / (1 + exp (- 3))))"
proof -
  have o1: "objective zero_lost_model [Fin (- 3), Fin 0] =
            Inr (Fin (- (10 * ln (1 / (exp (- 3) + 1)))))"
    using zero_lost_objective [of "- 3" 0] by simp
  have o2: "objective zero_lost_model [Fin 0, Fin (- 3)] =
            Inr (Fin (- (10 * ln (exp (- 3) / (1 + exp (- 3))))))"
    using zero_lost_objective [of 0 "- 3"] by simp
  have m1: "start_point_minimize (objective zero_lost_model) [Fin (- 3), Fin 0] =
     Inr \<lparr>opt_fun = Fin (- (10 * ln (1 / (exp (- 3) + 1)))), opt_x = [Fin (- 3), Fin 0],
          opt_success = True\<rparr>"
    by (simp add: start_point_minimize_def o1)
  have m2: "start_point_minimize (objective zero_lost_model) [Fin 0, Fin (- 3)] =
     Inr \<lparr>opt_fun = Fin (- (10 * ln (exp (- 3) / (1 + exp (- 3))))), opt_x = [Fin 0, Fin (- 3)],
          opt_success = True\<rparr>"
    by (simp add: start_point_minimize_def o2)
  have n: "self_n_cats zero_lost_model = 1" "self_categories zero_lost_model = [0]"
    "self_imap zero_lost_model 0 = Some [True]"
    by (simp_all add: zero_lost_model_def)
  have loop: "fit_loop start_point_minimize [[Fin (- 3), Fin 0], [Fin 0, Fin (- 3)]] None
                zero_lost_model =
              (None, Some (Fin (- (10 * ln (exp (- 3) / (1 + exp (- 3)))))),
               zero_lost_model\<lparr>self_opt := Some [Fin 0, Fin (- 3)]\<rparr>)"
    by (simp add: m1 m2 objective_opt result_gt_def)
  have pub: "publish_loop [0] (zero_lost_model\<lparr>self_opt := Some [Fin 0, Fin (- 3)]\<rparr>) =
     (None, zero_lost_model
              \<lparr>self_alpha := [0 \<mapsto> Fin 1], self_beta := [0 \<mapsto> Fin (exp (- 3))],
               self_opt := Some [Fin 0, Fin (- 3)]\<rparr>)"
    by (simp add: zero_lost_model_def mask_sum_def zero_npfloat_def)
  have "fit example_rng start_point_minimize 2 zero_lost_model =
        publish_loop [0] (zero_lost_model\<lparr>self_opt := Some [Fin 0, Fin (- 3)]\<rparr>)"
    by (simp add: fit_def n example_guesses loop del: fit_loop.simps publish_loop.simps)
  then have fit: "fit example_rng start_point_minimize 2 zero_lost_model =
     (None, zero_lost_model
              \<lparr>self_alpha := [0 \<mapsto> Fin 1], self_beta := [0 \<mapsto> Fin (exp (- 3))],
               self_opt := Some [Fin 0, Fin (- 3)]\<rparr>)"
    by (simp only: pub)
  have e: "(0::real) < exp (- 3)" "exp (- 3) < (1::real)" by simp_all
  have pos: "(0::real) < 1 + exp (- 3)" using e by linarith
  have "exp (- 3) / (1 + exp (- 3)) < 1 / (1 + exp (- 3 :: real))"
    by (rule divide_strict_right_mono [OF e(2) pos])
  then have "exp (- 3) / (1 + exp (- 3)) < 1 / (exp (- 3) + (1::real))"
    by (simp only: add.commute)
  moreover have "0 < exp (- 3) / (1 + exp (- 3 :: real))"
    using e by (simp add: add_pos_pos)
  ultimately have "ln (exp (- 3) / (1 + exp (- 3 :: real))) < ln (1 / (exp (- 3) + 1))"
    by (simp add: add_pos_pos)
  then have lt: "(- (10 * ln (1 / (exp (- 3) + 1))) :: real) <
                 - (10 * ln (exp (- 3) / (1 + exp (- 3))))"
    by simp
  from fit m1 m2 lt show ?thesis by blast
qed

subsection \<open>Failed restarts and invalid restart counts\<close>



text \<open>
  Claim C9 as stated fails: no ConfigurationError is raised. With \<open>restarts = 0\<close> the
  call raises TypeError after the (empty) random array has been drawn, and with
  \<open>restarts = -1\<close> it raises ValueError.
\<close>

theorem fit_restarts_below_one_counterexample:
  "fit example_rng start_point_minimize 0 zero_lost_model = (Some TypeError, zero_lost_model) \<and>
   fit example_rng start_point_minimize (- 1) zero_lost_model = (Some ValueError, zero_lost_model)"
  by (simp add: fit_def random_matrix_def zero_lost_model_def)

theorem fit_restarts_below_one_witness:
  "distinct (map fst zero_lost_data) \<and> init zero_lost_data = Inr zero_lost_model \<and>
   (0::int) < 1 \<and>
   fit example_rng failing_minimize 0 zero_lost_model = (Some TypeError, zero_lost_model)"
proof -
  have d: "distinct (map fst zero_lost_data)" by (simp add: zero_lost_data_def)
  have z: "(0::int) < 1" by simp
  from fit_restarts_below_one [OF d init_zero_lost_data z, of example_rng failing_minimize]
  have "fit example_rng failing_minimize 0 zero_lost_model = (Some TypeError, zero_lost_model)"
    by (simp add: zero_lost_data_def)
  with d init_zero_lost_data show ?thesis by simp
qed

end
